theory Spec2Isabelle
  imports Complex_Main "HOL-Library.Log_Nat" "HOL-Library.Sublist"
begin

section \<open>StudioGrade Audio Converter: a model of \<open>app.js\<close> and the \<open>AudioConverter\<close> class\<close>

text \<open>
  Conventions of the embedding.
  \<^item> A JavaScript string is a \<^typ>\<open>string\<close>; one \<^typ>\<open>char\<close> stands for one code unit, so
    lengths and indices are those of \<open>String.prototype\<close>.
  \<^item> A JavaScript number is an exact rational (\<^typ>\<open>rat\<close>) where the source computes with
    fractions, and an \<^typ>\<open>int\<close> or \<^typ>\<open>nat\<close> where it counts or indexes. Rounding of IEEE
    doubles is not modelled.
  \<^item> \<open>Math.random()\<close>, the clock and the order in which timers fire are inputs of the model.
  \<^item> A JavaScript array is a list. An array holds fewer than \<open>2^32\<close> elements; statements
    about a function that is given an array say so where they depend on it.
\<close>

subsection \<open>Data\<close>

text \<open>The fields of a browser \<open>File\<close> that the program reads: \<open>name\<close>, \<open>size\<close>, \<open>type\<close>.\<close>

record audio_file =
  file_name :: string
  file_size :: nat
  file_type :: string

text \<open>\<open>this.settings\<close> of the \<open>AudioConverter\<close> constructor.\<close>

record conv_settings =
  outputFormat :: string
  sampleRate :: nat
  channels :: nat
  bitDepth :: nat
  codec :: string

definition converter_settings :: conv_settings where
  "converter_settings =
     \<lparr>outputFormat = ''FLAC'', sampleRate = 96000, channels = 8, bitDepth = 24, codec = ''flac''\<rparr>"

definition supportedFormats :: "string list" where
  "supportedFormats =
     [''audio/mpeg'', ''audio/wav'', ''audio/x-wav'', ''audio/wave'', ''audio/aac'',
      ''audio/ogg'', ''audio/mp4'', ''audio/x-m4a'', ''audio/flac'', ''audio/x-flac'',
      ''audio/wma'', ''audio/webm'', ''audio/opus'']"

subsection \<open>String helpers of the platform\<close>

text \<open>\<open>s.startsWith(p)\<close>.\<close>

fun startsWith :: "string \<Rightarrow> string \<Rightarrow> bool" where
  "startsWith s [] = True"
| "startsWith [] (p # ps) = False"
| "startsWith (c # cs) (p # ps) = (c = p \<and> startsWith cs ps)"

text \<open>\<open>s.lastIndexOf(c)\<close> for a one-character search string: the index of the last
  occurrence, or \<open>-1\<close>.\<close>

fun lastIndexOf :: "string \<Rightarrow> char \<Rightarrow> int" where
  "lastIndexOf [] c = - 1"
| "lastIndexOf (x # xs) c =
     (let r = lastIndexOf xs c in if 0 \<le> r then r + 1 else if x = c then 0 else - 1)"

text \<open>\<open>n >>> 0\<close>: conversion to an unsigned 32-bit integer.\<close>

definition ushr0 :: "int \<Rightarrow> int" where
  "ushr0 n = n mod 2 ^ 32"

text \<open>\<open>s.slice(start)\<close>: a negative start counts from the end, a start beyond the end
  gives the empty string.\<close>

definition slice_from :: "string \<Rightarrow> int \<Rightarrow> string" where
  "slice_from s start =
     (if start < 0 then drop (nat (max (int (length s) + start) 0)) s else drop (nat start) s)"

subsection \<open>\<open>AudioConverter.getFileExtension\<close>\<close>

text \<open>\<^verbatim>\<open>return filename.slice((filename.lastIndexOf(".") - 1 >>> 0) + 2);\<close>\<close>

definition getFileExtension :: "string \<Rightarrow> string" where
  "getFileExtension filename =
     slice_from filename (ushr0 (lastIndexOf filename (CHR ''.'') - 1) + 2)"

text \<open>The reading of the words "the substring after the last dot", for comparison.\<close>

definition after_last_dot :: "string \<Rightarrow> string" where
  "after_last_dot s = drop (nat (lastIndexOf s (CHR ''.'') + 1)) s"

subsection \<open>The replacement \<open>name.replace(/\.[^/.]+$/, '.flac')\<close>\<close>

text \<open>
  \<open>ext_match s\<close>: the pattern \<open>\.[^/.]+$\<close> matches the whole of \<open>s\<close>, that is, \<open>s\<close> is a dot
  followed by one or more characters, none of them a slash or a dot, up to the end of the
  input. \<open>replace_ext\<close> tries the start positions from left to right and replaces the first
  match; without a match the string is returned as it is.
\<close>

definition ext_char :: "char \<Rightarrow> bool" where
  "ext_char c = (c \<noteq> CHR ''/'' \<and> c \<noteq> CHR ''.'')"

fun ext_match :: "string \<Rightarrow> bool" where
  "ext_match [] = False"
| "ext_match (c # cs) = (c = CHR ''.'' \<and> cs \<noteq> [] \<and> list_all ext_char cs)"

fun replace_ext :: "string \<Rightarrow> string" where
  "replace_ext [] = []"
| "replace_ext (c # cs) = (if ext_match (c # cs) then ''.flac'' else c # replace_ext cs)"

text \<open>The names in which the pattern has a match: the pattern matches at some position.\<close>

fun has_extension :: "string \<Rightarrow> bool" where
  "has_extension [] = False"
| "has_extension (c # cs) = (ext_match (c # cs) \<or> has_extension cs)"

lemma lastIndexOf_ge: "- 1 \<le> lastIndexOf s c"
  by (induction s) (auto simp: Let_def)

lemma lastIndexOf_lt: "lastIndexOf s c < int (length s)"
  by (induction s) (auto simp: Let_def)

lemma lastIndexOf_none: "lastIndexOf s c = - 1 \<longleftrightarrow> c \<notin> set s"
proof (induction s)
  case Nil
  show ?case by simp
next
  case (Cons x xs)
  have "- 1 \<le> lastIndexOf xs c" by (rule lastIndexOf_ge)
  with Cons show ?case by (auto simp: Let_def)
qed

lemma lastIndexOf_append:
  "c \<notin> set e \<Longrightarrow> lastIndexOf (p @ c # e) c = int (length p)"
proof (induction p)
  case Nil
  then have "lastIndexOf e c = - 1" by (simp add: lastIndexOf_none)
  then show ?case by (simp add: Let_def)
next
  case (Cons x p)
  then show ?case by (simp add: Let_def)
qed

lemma ushr0_small: "0 \<le> n \<Longrightarrow> n < 2 ^ 32 \<Longrightarrow> ushr0 n = n"
  by (simp add: ushr0_def)

lemma ushr0_m1: "ushr0 (- 1) = 2 ^ 32 - 1"
  by (simp add: ushr0_def)

lemma ushr0_m2: "ushr0 (- 2) = 2 ^ 32 - 2"
  by (simp add: ushr0_def)

lemma slice_from_beyond: "int (length s) \<le> n \<Longrightarrow> slice_from s n = []"
  unfolding slice_from_def by (cases "n < 0") auto

lemma getFileExtension_cases:
  assumes len: "length filename < 2 ^ 32"
  shows "getFileExtension filename =
     (if 1 \<le> lastIndexOf filename (CHR ''.'') then after_last_dot filename else [])"
proof -
  let ?i = "lastIndexOf filename (CHR ''.'')"
  have lo: "- 1 \<le> ?i" by (rule lastIndexOf_ge)
  have hi: "?i < int (length filename)" by (rule lastIndexOf_lt)
  from len have "int (length filename) < int (2 ^ 32)"
    by (simp only: of_nat_less_iff)
  then have len': "int (length filename) < 2 ^ 32"
    by simp
  consider (pos) "1 \<le> ?i" | (zero) "?i = 0" | (none) "?i = - 1"
    using lo by linarith
  then show ?thesis
  proof cases
    case pos
    have "ushr0 (?i - 1) = ?i - 1"
      using pos hi len' by (intro ushr0_small) linarith+
    then have "getFileExtension filename = slice_from filename (?i + 1)"
      by (simp add: getFileExtension_def add.commute)
    also have "\<dots> = after_last_dot filename"
      using pos by (simp add: slice_from_def after_last_dot_def)
    finally show ?thesis using pos by simp
  next
    case zero
    have "ushr0 (?i - 1) + 2 = 2 ^ 32 + 1"
      using zero by (simp add: ushr0_m1)
    then have "getFileExtension filename = slice_from filename (2 ^ 32 + 1)"
      by (simp only: getFileExtension_def)
    also have "\<dots> = []"
      using len' by (intro slice_from_beyond) linarith
    finally show ?thesis using zero by simp
  next
    case none
    have "ushr0 (?i - 1) + 2 = 2 ^ 32"
      using none by (simp add: ushr0_m2)
    then have "getFileExtension filename = slice_from filename (2 ^ 32)"
      by (simp only: getFileExtension_def)
    also have "\<dots> = []"
      using len' by (intro slice_from_beyond) linarith
    finally show ?thesis using none by simp
  qed
qed

lemma short_name: "length s < 100 \<Longrightarrow> length s < 2 ^ 32"
  by simp

lemma lastIndexOf_bashrc: "lastIndexOf ''.bashrc'' (CHR ''.'') = 0"
  by (simp add: Let_def)

subsection \<open>Claim C9\<close>

text \<open>
  C9, as stated: for every filename the helper returns the substring after the last dot,
  and the empty string when the name has no dot. The statement fails for a name whose only
  dot is its first character: the helper answers the empty string there, while the
  substring after the last dot is the rest of the name.
\<close>

theorem getFileExtension_dotfile_counterexample:
  "getFileExtension ''.bashrc'' = [] \<and> after_last_dot ''.bashrc'' = ''bashrc''
   \<and> getFileExtension ''.bashrc'' \<noteq> after_last_dot ''.bashrc''"
proof -
  have "length ''.bashrc'' < (2::nat) ^ 32" by (rule short_name) simp
  then have a: "getFileExtension ''.bashrc'' = []"
    by (simp only: getFileExtension_cases lastIndexOf_bashrc) simp
  have b: "after_last_dot ''.bashrc'' = ''bashrc''"
    by (simp add: after_last_dot_def lastIndexOf_bashrc)
  from a b show ?thesis by simp
qed

text \<open>
  C9, amended: for every filename shorter than \<open>2^32\<close> code units, the helper returns the
  substring after the last dot when that dot stands at index 1 or later; when the name has
  no dot (\<open>lastIndexOf\<close> is \<open>-1\<close>) or its last dot is its first character (index 0), it
  returns the empty string.
\<close>

theorem getFileExtension_spec:
  assumes "length filename < 2 ^ 32"
  shows "getFileExtension filename =
     (if 1 \<le> lastIndexOf filename (CHR ''.'') then after_last_dot filename else [])"
  using assms by (rule getFileExtension_cases)

theorem getFileExtension_spec_witness:
  "getFileExtension ''song.final.mp3'' = ''mp3'' \<and> getFileExtension ''README'' = []"
proof -
  have a: "length ''song.final.mp3'' < (2::nat) ^ 32" by (rule short_name) simp
  have b: "length ''README'' < (2::nat) ^ 32" by (rule short_name) simp
  have "getFileExtension ''song.final.mp3'' = ''mp3''"
    by (simp only: getFileExtension_spec [OF a]) (simp add: after_last_dot_def Let_def)
  moreover have "getFileExtension ''README'' = []"
    by (simp only: getFileExtension_spec [OF b]) (simp add: Let_def)
  ultimately show ?thesis by simp
qed

subsection \<open>\<open>AudioConverter.formatFileSize\<close> and \<open>estimateOutputSize\<close>\<close>

text \<open>\<open>Math.round(x)\<close>: the nearest integer, a tie going up.\<close>

definition js_round :: "rat \<Rightarrow> int" where
  "js_round x = \<lfloor>x + 1 / 2\<rfloor>"

definition digit :: "nat \<Rightarrow> char" where
  "digit n = ''0123456789'' ! n"

fun nat_to_string :: "nat \<Rightarrow> string" where
  "nat_to_string n =
     (if n < 10 then [digit n] else nat_to_string (n div 10) @ [digit (n mod 10)])"

declare nat_to_string.simps [simp del]

text \<open>
  The string of a number in \<open>number + ' ' + unit\<close>, for the numbers \<open>formatFileSize\<close>
  prints: non-negative multiples of \<open>1/100\<close> below \<open>10^21\<close>. The integer part is written
  in decimal, followed by the fraction without trailing zeros.
\<close>

definition number_to_string :: "rat \<Rightarrow> string" where
  "number_to_string v =
     (let n = nat \<lfloor>v * 100\<rfloor>; w = n div 100; f = n mod 100
      in nat_to_string w @
         (if f = 0 then []
          else if f mod 10 = 0 then CHR ''.'' # [digit (f div 10)]
          else CHR ''.'' # [digit (f div 10), digit (f mod 10)]))"

definition sizes :: "string list" where
  "sizes = [''Bytes'', ''KB'', ''MB'', ''GB'', ''TB'']"

text \<open>\<open>sizes[i]\<close>: an index outside the array reads \<open>undefined\<close>.\<close>

definition sizes_at :: "int \<Rightarrow> string" where
  "sizes_at i = (if 0 \<le> i \<and> i < 5 then sizes ! nat i else ''undefined'')"

text \<open>
  \<^verbatim>\<open>
  if (bytes === 0) return '0 Bytes';
  const k = 1024;
  const i = Math.floor(Math.log(bytes) / Math.log(k));
  return Math.round(bytes / Math.pow(k, i) * 100) / 100 + ' ' + sizes[i];
  \<close>
  The logarithm of a negative number is \<open>NaN\<close>, and so is everything computed from it.
  The quotient of the logarithms is taken exactly here. The code computes it in doubles,
  whose rounding can reach the next integer when the argument lies within a few units in the
  last place of a power of 1024, as it does just below \<open>1024^5\<close>; the statements about this
  function are made for arguments of at most \<open>2^30\<close>, the largest file size that the page
  accepts.
\<close>

definition formatFileSize :: "rat \<Rightarrow> string" where
  "formatFileSize bytes =
     (if bytes = 0 then ''0 Bytes''
      else if bytes < 0 then ''NaN undefined''
      else let k = (1024 :: nat);
               i = \<lfloor>ln (real_of_rat bytes) / ln (real k)\<rfloor>
           in number_to_string (of_int (js_round (bytes / (of_nat k powi i) * 100)) / 100)
              @ '' '' @ sizes_at i)"

text \<open>\<^verbatim>\<open>const estimatedSize = originalSize * 0.55; return this.formatFileSize(estimatedSize);\<close>\<close>

definition estimateOutputSize :: "nat \<Rightarrow> string" where
  "estimateOutputSize originalSize = formatFileSize (of_nat originalSize * (55 / 100))"

text \<open>
  An executable form of \<open>Math.floor(Math.log(x) / Math.log(k))\<close> for \<open>x > 0\<close>: the number
  of base-\<open>k\<close> digits of the integer part, less one, when \<open>x \<ge> 1\<close>, and the negated number
  of digits of \<open>\<lceil>1/x\<rceil> - 1\<close> otherwise.
\<close>

definition log_floor :: "nat \<Rightarrow> rat \<Rightarrow> int" where
  "log_floor k x =
     (if 1 \<le> x then int (floorlog k (nat \<lfloor>x\<rfloor>)) - 1
      else - int (floorlog k (nat (\<lceil>1 / x\<rceil> - 1))))"

text \<open>The reading of the words "ceil(inputSize * 0.55)", for comparison.\<close>

definition ceil_estimate :: "nat \<Rightarrow> int" where
  "ceil_estimate inputSize = \<lceil>(of_nat inputSize :: rat) * (55 / 100)\<rceil>"

subsection \<open>The output descriptor built by \<open>convertToFLAC\<close>\<close>

record converted_file =
  originalName :: string
  convertedName :: string
  originalSize :: nat
  estimatedSize :: string
  settings :: conv_settings
  timestamp :: string

text \<open>
  The object literal \<open>convertedFile\<close>; \<open>now\<close> is what \<open>new Date().toISOString()\<close> returns
  when the literal is evaluated.
\<close>

definition convertedFile :: "audio_file \<Rightarrow> string \<Rightarrow> converted_file" where
  "convertedFile file now =
     \<lparr>originalName = file_name file,
      convertedName = replace_ext (file_name file),
      originalSize = file_size file,
      estimatedSize = estimateOutputSize (file_size file),
      settings = converter_settings,
      timestamp = now\<rparr>"

subsection \<open>Validation: \<open>isValidAudioFile\<close>, \<open>validateFileSize\<close>\<close>

definition isValidAudioFile :: "audio_file \<Rightarrow> bool" where
  "isValidAudioFile file =
     (file_type file \<in> set supportedFormats \<or> startsWith (file_type file) ''audio/'')"

record size_validation =
  valid :: bool
  size_v :: nat
  maxSize :: nat
  message :: string

definition validateFileSize :: "audio_file \<Rightarrow> size_validation" where
  "validateFileSize file =
     (let max_size = 1024 * 1024 * 1024
      in \<lparr>valid = (file_size file \<le> max_size),
          size_v = file_size file,
          maxSize = max_size,
          message = (if file_size file > max_size
                     then ''File terlalu besar. Maksimum '' @ formatFileSize (of_nat max_size)
                     else [])\<rparr>)"

subsection \<open>The DOM and the state of the page\<close>

text \<open>
  What the page keeps of a file item: the label of its status element (\<open>Ready\<close>,
  \<open>Converting...\<close>, \<open>Completed\<close>, \<open>Failed\<close>), the class of that element, whether the progress
  bar is active, the width of the progress fill in percent, and whether the failure colours
  are set.
\<close>

datatype status_label = Ready | Converting | Completed | Failed

record file_item =
  statusText :: status_label
  statusClass :: string
  barActive :: bool
  fillWidth :: "rat option"
  errorStyle :: bool

text \<open>The label of the start button (\<open>startConversionBtn.innerHTML\<close>).\<close>

datatype button_label = StartAll | ConvertingNow | ConvertingPercent int | AllCompleted

text \<open>
  The globals \<open>selectedFiles\<close> and \<open>isConverting\<close>, the file items of the list
  (\<open>.file-item[data-index=i]\<close> is \<open>items ! i\<close>), and the start button.
\<close>

record app_state =
  selectedFiles :: "audio_file list"
  isConverting :: bool
  items :: "file_item list"
  button :: button_label

datatype notification =
    WaitForConversion
  | FilesAdded nat
  | FilesRejected "(string \<times> string) list"
  | NoFilesSelected
  | SelectFilesFirst
  | ConversionRunning

definition createFileItem :: "audio_file \<Rightarrow> file_item" where
  "createFileItem file =
     \<lparr>statusText = Ready, statusClass = ''file-status ready'', barActive = False,
      fillWidth = None, errorStyle = False\<rparr>"

text \<open>\<open>renderFileList\<close>: with no selected file it returns before touching the items.\<close>

definition renderFileList :: "app_state \<Rightarrow> app_state" where
  "renderFileList st =
     (if selectedFiles st = [] then st
      else st\<lparr>items := map createFileItem (selectedFiles st)\<rparr>)"

subsection \<open>\<open>handleFiles\<close>\<close>

text \<open>\<^verbatim>\<open>selectedFiles.some(f => f.name === file.name && f.size === file.size)\<close>\<close>

definition isDuplicate :: "audio_file list \<Rightarrow> audio_file \<Rightarrow> bool" where
  "isDuplicate selected file =
     list_ex (\<lambda>f. file_name f = file_name file \<and> file_size f = file_size file) selected"

text \<open>
  The body of \<open>filesArray.forEach\<close>, on the arrays \<open>validFiles\<close> and \<open>invalidFiles\<close>; an
  entry of \<open>invalidFiles\<close> is the pair of \<open>name\<close> and \<open>reason\<close>. \<open>selected\<close> is the global
  \<open>selectedFiles\<close>, which the loop reads and does not change.
\<close>

definition check_file ::
  "audio_file list \<Rightarrow> audio_file list \<times> (string \<times> string) list \<Rightarrow> audio_file
    \<Rightarrow> audio_file list \<times> (string \<times> string) list" where
  "check_file selected acc file =
     (case acc of (validFiles, invalidFiles) \<Rightarrow>
        if \<not> isValidAudioFile file
        then (validFiles, invalidFiles @ [(file_name file, ''Format tidak didukung'')])
        else let sizeValidation = validateFileSize file in
          if \<not> valid sizeValidation
          then (validFiles, invalidFiles @ [(file_name file, message sizeValidation)])
          else if isDuplicate selected file
          then (validFiles, invalidFiles @ [(file_name file, ''File sudah ada dalam daftar'')])
          else (validFiles @ [file], invalidFiles))"

definition handleFiles :: "app_state \<Rightarrow> audio_file list \<Rightarrow> app_state \<times> notification list" where
  "handleFiles st files =
     (if isConverting st then (st, [WaitForConversion])
      else case foldl (check_file (selectedFiles st)) ([], []) files of
        (validFiles, invalidFiles) \<Rightarrow>
          ((if validFiles \<noteq> []
            then renderFileList (st\<lparr>selectedFiles := selectedFiles st @ validFiles\<rparr>)
            else st),
           (if validFiles \<noteq> [] then [FilesAdded (length validFiles)] else [])
           @ (if invalidFiles \<noteq> [] then [FilesRejected invalidFiles] else [])
           @ (if validFiles = [] \<and> invalidFiles = [] then [NoFilesSelected] else [])))"

text \<open>
  What the loop body decides for one candidate: the reason it is rejected with, or \<open>None\<close>
  when it is pushed to \<open>validFiles\<close>.
\<close>

definition reject_reason :: "audio_file list \<Rightarrow> audio_file \<Rightarrow> string option" where
  "reject_reason selected file =
     (case check_file selected ([], []) file of
        (_, []) \<Rightarrow> None
      | (_, (_, reason) # _) \<Rightarrow> Some reason)"

subsection \<open>Facts about the size formatting\<close>

lemma powr_of_nat_exp: "0 < b \<Longrightarrow> b powr real_of_int (int n) = b ^ n"
  by (simp add: powr_realpow)

lemma powr_neg_of_nat_exp: "0 < b \<Longrightarrow> b powr real_of_int (- int n) = 1 / b ^ n"
  by (simp add: powr_minus powr_realpow divide_inverse)

lemma log_floor_ge1:
  fixes X :: real
  assumes k: "2 \<le> k" and X: "1 \<le> X"
  shows "\<lfloor>log (real k) X\<rfloor> = int (floorlog k (nat \<lfloor>X\<rfloor>)) - 1"
proof -
  let ?n = "nat \<lfloor>X\<rfloor>"
  let ?f = "floorlog k ?n"
  have n: "0 < ?n" using X by simp
  have k1: "1 < k" using k by simp
  from floorlog_bounds [OF n k1] have lo: "k ^ (?f - 1) \<le> ?n" and hi: "?n < k ^ ?f"
    by simp_all
  have f: "0 < ?f" using n k1 by (simp add: floorlog_def)
  have nX: "real ?n \<le> X" using X by simp
  have Xn: "X < real ?n + 1" using X by simp
  have "real k ^ (?f - 1) \<le> real ?n"
    using lo by (metis of_nat_le_iff of_nat_power)
  then have a: "real k ^ (?f - 1) \<le> X" using nX by linarith
  have "?n + 1 \<le> k ^ ?f" using hi by simp
  then have "real (?n + 1) \<le> real (k ^ ?f)" by (simp only: of_nat_le_iff)
  then have b: "X < real k ^ ?f" using Xn by simp
  have kpos: "0 < real k" using k1 by simp
  have e1: "int ?f - 1 = int (?f - 1)" using f by simp
  have p1: "real k powr real_of_int (int ?f - 1) = real k ^ (?f - 1)"
    unfolding e1 using kpos by (rule powr_of_nat_exp)
  have e2: "int ?f - 1 + 1 = int ?f" by simp
  have p2: "real k powr real_of_int (int ?f - 1 + 1) = real k ^ ?f"
    unfolding e2 using kpos by (rule powr_of_nat_exp)
  have "0 < X" using X by simp
  moreover have "1 < real k" using k1 by simp
  ultimately show ?thesis
    using a b p1 p2 by (simp only: floor_log_eq_powr_iff)
qed

lemma log_floor_lt1:
  fixes X :: real
  assumes k: "2 \<le> k" and X0: "0 < X" and X1: "X < 1"
  shows "\<lfloor>log (real k) X\<rfloor> = - int (floorlog k (nat (\<lceil>1 / X\<rceil> - 1)))"
proof -
  let ?m = "nat (\<lceil>1 / X\<rceil> - 1)"
  let ?f = "floorlog k ?m"
  have k1: "1 < k" using k by simp
  have inv: "1 < 1 / X" using X0 X1 by simp
  then have c2: "2 \<le> \<lceil>1 / X\<rceil>" by linarith
  then have m: "0 < ?m" by simp
  from floorlog_bounds [OF m k1] have lo: "k ^ (?f - 1) \<le> ?m" and hi: "?m < k ^ ?f"
    by simp_all
  have f: "0 < ?f" using m k1 by (simp add: floorlog_def)
  have "0 \<le> \<lceil>1 / X\<rceil> - 1" using c2 by linarith
  then have "real ?m = of_int (\<lceil>1 / X\<rceil> - 1)" by (rule of_nat_nat)
  then have rm: "real ?m = of_int \<lceil>1 / X\<rceil> - 1" by simp
  have m_lt: "real ?m < 1 / X" unfolding rm by linarith
  have m_ge: "1 / X \<le> real ?m + 1" unfolding rm by simp
  have "real k ^ (?f - 1) \<le> real ?m"
    using lo by (metis of_nat_le_iff of_nat_power)
  then have a: "real k ^ (?f - 1) < 1 / X" using m_lt by linarith
  have "?m + 1 \<le> k ^ ?f" using hi by simp
  then have "real (?m + 1) \<le> real (k ^ ?f)" by (simp only: of_nat_le_iff)
  then have b: "1 / X \<le> real k ^ ?f" using m_ge by simp
  have kp: "0 < real k ^ ?f" "0 < real k ^ (?f - 1)" using k1 by simp_all
  have a': "X < 1 / real k ^ (?f - 1)"
    using a X0 kp by (simp add: field_simps)
  have b': "1 / real k ^ ?f \<le> X"
    using b X0 kp by (simp add: field_simps)
  have kpos: "0 < real k" using k1 by simp
  have p1: "real k powr real_of_int (- int ?f) = 1 / real k ^ ?f"
    using kpos by (rule powr_neg_of_nat_exp)
  have e2: "- int ?f + 1 = - int (?f - 1)" using f by simp
  have p2: "real k powr real_of_int (- int ?f + 1) = 1 / real k ^ (?f - 1)"
    unfolding e2 using kpos by (rule powr_neg_of_nat_exp)
  have "1 < real k" using k1 by simp
  with X0 show ?thesis
    using a' b' p1 p2 by (simp only: floor_log_eq_powr_iff)
qed

lemma log_floor_correct:
  assumes "2 \<le> k" and "0 < x"
  shows "\<lfloor>ln (real_of_rat x) / ln (real k)\<rfloor> = log_floor k x"
proof -
  have eq: "ln (real_of_rat x) / ln (real k) = log (real k) (real_of_rat x)"
    by (simp add: log_def)
  show ?thesis
  proof (cases "1 \<le> x")
    case True
    then have "1 \<le> real_of_rat x" by simp
    from log_floor_ge1 [OF assms(1) this] True show ?thesis
      unfolding eq by (simp add: log_floor_def)
  next
    case False
    then have x1: "real_of_rat x < 1" by simp
    have x0: "0 < real_of_rat x" using assms(2) by simp
    have "\<lceil>1 / real_of_rat x\<rceil> = \<lceil>1 / x\<rceil>"
      by (metis of_rat_ceiling of_rat_1 of_rat_divide)
    with log_floor_lt1 [OF assms(1) x0 x1] False show ?thesis
      unfolding eq by (simp add: log_floor_def)
  qed
qed


lemma log_floor_nonnegI:
  assumes k: "2 \<le> k" and lo: "of_nat (k ^ n) \<le> x" and hi: "x < of_nat (k ^ Suc n)"
  shows "log_floor k x = int n"
proof -
  have kp: "0 < k ^ n" using k by simp
  then have "(0::rat) < of_nat (k ^ n)" by (simp only: of_nat_0_less_iff)
  with lo have x0: "0 < x" by linarith
  let ?X = "real_of_rat x"
  have X0: "0 < ?X" using x0 by simp
  have k1: "1 < real k" using k by simp
  have "real_of_rat (of_nat (k ^ n)) \<le> ?X" using lo by (simp only: of_rat_less_eq)
  then have a: "real k powr real_of_int (int n) \<le> ?X"
    using k1 by (simp add: powr_realpow of_rat_power)
  have "?X < real_of_rat (of_nat (k ^ Suc n))" using hi by (simp only: of_rat_less)
  then have "?X < real k ^ Suc n" by (simp add: of_rat_power of_rat_mult)
  moreover have "real k powr real_of_int (int n + 1) = real k ^ Suc n"
    using k1 powr_of_nat_exp [of "real k" "Suc n"] by (simp add: add.commute)
  ultimately have b: "?X < real k powr real_of_int (int n + 1)" by simp
  have "\<lfloor>log (real k) ?X\<rfloor> = int n"
    using X0 k1 a b by (simp only: floor_log_eq_powr_iff)
  then have "\<lfloor>ln ?X / ln (real k)\<rfloor> = int n" by (simp add: log_def)
  with log_floor_correct [OF k x0] show ?thesis by simp
qed

lemma log_floor_negI:
  assumes k: "2 \<le> k" and lo: "1 \<le> x * of_nat (k ^ n)" and hi: "x * of_nat (k ^ n) < of_nat k"
    and n: "0 < n"
  shows "log_floor k x = - int n"
proof -
  have kp: "(0::rat) < of_nat (k ^ n)" using k by simp
  have x0: "0 < x"
  proof (rule ccontr)
    assume "\<not> 0 < x"
    then have "x * of_nat (k ^ n) \<le> 0" using kp by (simp add: mult_le_0_iff)
    with lo show False by linarith
  qed
  let ?X = "real_of_rat x"
  have X0: "0 < ?X" using x0 by simp
  have k1: "1 < real k" using k by simp
  have kpr: "0 < real k ^ n" using k1 by simp
  have "real_of_rat 1 \<le> real_of_rat (x * of_nat (k ^ n))" using lo by (simp only: of_rat_less_eq)
  then have "1 \<le> ?X * real k ^ n" by (simp add: of_rat_mult of_rat_power)
  then have "1 / real k ^ n \<le> ?X" using kpr by (simp add: field_simps)
  then have a: "real k powr real_of_int (- int n) \<le> ?X"
    using k1 powr_neg_of_nat_exp [of "real k" n] by simp
  have "real_of_rat (x * of_nat (k ^ n)) < real_of_rat (of_nat k)" using hi by (simp only: of_rat_less)
  then have "?X * real k ^ n < real k" by (simp add: of_rat_mult of_rat_power)
  moreover have "real k ^ n = real k * real k ^ (n - 1)"
    using n by (cases n) simp_all
  ultimately have "?X * real k ^ (n - 1) < 1" using k1 by simp
  moreover have kpr': "0 < real k ^ (n - 1)" using k1 by simp
  ultimately have "?X < 1 / real k ^ (n - 1)" by (simp add: field_simps)
  then have c: "?X < 1 / real k ^ (n - 1)" .
  have e: "- int n + 1 = - int (n - 1)" using n by simp
  have kpos: "0 < real k" using k1 by simp
  have "real k powr real_of_int (- int n + 1) = 1 / real k ^ (n - 1)"
    unfolding e using kpos by (rule powr_neg_of_nat_exp)
  with c have b: "?X < real k powr real_of_int (- int n + 1)" by (simp only:)
  have "\<lfloor>log (real k) ?X\<rfloor> = - int n"
    using X0 k1 a b by (simp only: floor_log_eq_powr_iff)
  then have "\<lfloor>ln ?X / ln (real k)\<rfloor> = - int n" by (simp add: log_def)
  with log_floor_correct [OF k x0] show ?thesis by simp
qed

lemma formatFileSize_code [code]:
  "formatFileSize bytes =
     (if bytes = 0 then ''0 Bytes''
      else if bytes < 0 then ''NaN undefined''
      else let i = log_floor 1024 bytes
           in number_to_string (of_int (js_round (bytes / (1024 powi i) * 100)) / 100)
              @ '' '' @ sizes_at i)"
proof (cases "0 < bytes")
  case True
  have "\<lfloor>ln (real_of_rat bytes) / ln (real 1024)\<rfloor> = log_floor 1024 bytes"
    by (rule log_floor_correct) (use True in simp_all)
  then show ?thesis
    using True by (simp add: formatFileSize_def Let_def)
next
  case False
  then show ?thesis by (auto simp: formatFileSize_def)
qed



lemma formatFileSize_eval:
  assumes "0 < bytes" and "log_floor 1024 bytes = i"
    and "js_round (bytes / (1024 powi i) * 100) = m"
    and "number_to_string (of_int m / 100) = s" and "sizes_at i = u"
  shows "formatFileSize bytes = s @ '' '' @ u"
  using assms by (simp add: formatFileSize_code)


text \<open>The size formatting of a number between two powers of 1024.\<close>

lemma formatFileSize_unit:
  assumes lo: "1024 ^ n \<le> b" and hi: "b < 1024 ^ Suc n" and n: "n < 5"
  shows "formatFileSize b =
     number_to_string (of_int (js_round (b / 1024 ^ n * 100)) / 100) @ '' '' @ sizes ! n"
proof -
  have "(0::rat) < 1024 ^ n" by simp
  with lo have b0: "0 < b" by linarith
  have "(of_nat (1024 ^ n) :: rat) = 1024 ^ n" by simp
  with lo have lo': "of_nat (1024 ^ n) \<le> b" by (simp only:)
  have "(of_nat (1024 ^ Suc n) :: rat) = 1024 ^ Suc n" by simp
  with hi have hi': "b < of_nat (1024 ^ Suc n)" by (simp only:)
  have i: "log_floor 1024 b = int n"
    using _ lo' hi' by (rule log_floor_nonnegI) simp
  have p: "(1024::rat) powi int n = 1024 ^ n" by simp
  have u: "sizes_at (int n) = sizes ! n" using n by (simp add: sizes_at_def)
  show ?thesis
    using b0 by (simp add: formatFileSize_code i p u)
qed

lemma floor_rat_numeral_div:
  "\<lfloor>(numeral a :: rat) / numeral b\<rfloor> = numeral a div numeral b"
  using floor_divide_of_int_eq [of "numeral a" "numeral b", where ?'a = rat] by simp

lemma formatFileSize_1GB: "formatFileSize 1073741824 = ''1 GB''"
proof -
  have i: "log_floor 1024 1073741824 = 3"
    using log_floor_nonnegI [of 1024 3 1073741824] by simp
  have m: "js_round (1073741824 / (1024 powi 3) * 100) = 100"
    by (simp add: js_round_def floor_rat_numeral_div)
  have s: "number_to_string (of_int 100 / 100) = ''1''"
    by (simp add: number_to_string_def nat_to_string.simps digit_def)
  have u: "sizes_at 3 = ''GB''"
    by (simp add: sizes_at_def sizes_def)
  show ?thesis
    using formatFileSize_eval [OF _ i m s u] by simp
qed

lemma estimateOutputSize_10: "estimateOutputSize 10 = ''5.5 Bytes''"
proof -
  have i: "log_floor 1024 (11 / 2) = 0"
    using log_floor_nonnegI [of 1024 0 "11 / 2"] by simp
  have m: "js_round (11 / 2 / (1024 powi 0) * 100) = 550"
    by (simp add: js_round_def floor_rat_numeral_div)
  have s: "number_to_string (of_int 550 / 100) = ''5.5''"
    by (simp add: number_to_string_def nat_to_string.simps digit_def)
  have u: "sizes_at 0 = ''Bytes''"
    by (simp add: sizes_at_def sizes_def)
  have "formatFileSize (11 / 2) = ''5.5 Bytes''"
    using formatFileSize_eval [OF _ i m s u] by simp
  then show ?thesis by (simp add: estimateOutputSize_def)
qed

text \<open>Below one byte the index \<open>i\<close> is negative and \<open>sizes[i]\<close> is \<open>undefined\<close>: the estimate
  for a file of one byte.\<close>

lemma estimateOutputSize_1: "estimateOutputSize 1 = ''563.2 undefined''"
proof -
  have i: "log_floor 1024 (11 / 20) = - 1"
    using log_floor_negI [of 1024 "11 / 20" 1] by simp
  have m: "js_round (11 / 20 / (1024 powi (- 1)) * 100) = 56320"
    by (simp add: js_round_def power_int_minus floor_rat_numeral_div)
  have s: "number_to_string (of_int 56320 / 100) = ''563.2''"
    by (simp add: number_to_string_def nat_to_string.simps digit_def)
  have u: "sizes_at (- 1) = ''undefined''"
    by (simp add: sizes_at_def)
  have "formatFileSize (11 / 20) = ''563.2 undefined''"
    using formatFileSize_eval [OF _ i m s u] by simp
  then show ?thesis by (simp add: estimateOutputSize_def)
qed

lemma validate_iff: "valid (validateFileSize file) \<longleftrightarrow> file_size file \<le> 2 ^ 30"
  by (simp add: validateFileSize_def Let_def)

lemma validate_maxSize: "maxSize (validateFileSize file) = 2 ^ 30"
  by (simp add: validateFileSize_def Let_def)

lemma validate_message:
  "message (validateFileSize file) =
     (if file_size file \<le> 2 ^ 30 then [] else ''File terlalu besar. Maksimum 1 GB'')"
  using formatFileSize_1GB by (simp add: validateFileSize_def Let_def)

lemma replace_ext_no_dot: "CHR ''.'' \<notin> set s \<Longrightarrow> replace_ext s = s"
  by (induction s) auto

lemma replace_ext_append:
  "e \<noteq> [] \<Longrightarrow> list_all ext_char e \<Longrightarrow> replace_ext (p @ CHR ''.'' # e) = p @ ''.flac''"
proof (induction p)
  case Nil
  then show ?case by simp
next
  case (Cons c p)
  have "\<not> list_all ext_char (p @ CHR ''.'' # e)"
    by (simp add: ext_char_def)
  then have "\<not> ext_match (c # p @ CHR ''.'' # e)" by simp
  with Cons show ?case by simp
qed

lemma has_extension_iff:
  "has_extension s \<longleftrightarrow> (\<exists>p e. s = p @ CHR ''.'' # e \<and> e \<noteq> [] \<and> list_all ext_char e)"
proof (induction s)
  case Nil
  show ?case by simp
next
  case (Cons c cs)
  show ?case
  proof
    assume "has_extension (c # cs)"
    then consider (here) "ext_match (c # cs)" | (later) "has_extension cs" by auto
    then show "\<exists>p e. c # cs = p @ CHR ''.'' # e \<and> e \<noteq> [] \<and> list_all ext_char e"
    proof cases
      case here
      then have "c # cs = [] @ CHR ''.'' # cs \<and> cs \<noteq> [] \<and> list_all ext_char cs" by simp
      then show ?thesis by blast
    next
      case later
      with Cons.IH obtain p e where "cs = p @ CHR ''.'' # e" "e \<noteq> []" "list_all ext_char e"
        by blast
      then have "c # cs = (c # p) @ CHR ''.'' # e \<and> e \<noteq> [] \<and> list_all ext_char e" by simp
      then show ?thesis by blast
    qed
  next
    assume "\<exists>p e. c # cs = p @ CHR ''.'' # e \<and> e \<noteq> [] \<and> list_all ext_char e"
    then obtain p e where pe: "c # cs = p @ CHR ''.'' # e" "e \<noteq> []" "list_all ext_char e"
      by blast
    show "has_extension (c # cs)"
    proof (cases p)
      case Nil
      with pe show ?thesis by simp
    next
      case (Cons d q)
      with pe have "cs = q @ CHR ''.'' # e" by simp
      with pe(2,3) Cons.IH have "has_extension cs" by blast
      then show ?thesis by simp
    qed
  qed
qed

lemma replace_ext_no_extension: "\<not> has_extension s \<Longrightarrow> replace_ext s = s"
proof (induction s)
  case Nil
  show ?case by simp
next
  case (Cons c cs)
  from Cons.prems have "\<not> ext_match (c # cs)" and "\<not> has_extension cs" by simp_all
  with Cons.IH show ?case by auto
qed

subsection \<open>Claim C10\<close>

text \<open>
  C10: the converted name of the output descriptor is the input name with its final
  extension replaced by \<open>.flac\<close>, where a final extension is a dot followed by one or more
  characters other than a dot and a slash, up to the end of the name (so \<open>p.e\<close> becomes
  \<open>p.flac\<close>). A name with no final extension, that is, every name that is not of the form
  \<open>p.e\<close>, is left as it is: a name with no dot, and also a name whose last dot is its last
  character or is followed by a slash (\<open>a.\<close>, \<open>a..\<close>, \<open>a.b/c\<close>). Such a converted name
  (\<open>README\<close>) does not end in \<open>.flac\<close>.
\<close>

theorem convertedName_spec:
  "(\<forall>p e. file_name f = p @ CHR ''.'' # e \<and> e \<noteq> [] \<and> list_all ext_char e
      \<longrightarrow> convertedName (convertedFile f now) = p @ ''.flac'')
   \<and> (\<not> (\<exists>p e. file_name f = p @ CHR ''.'' # e \<and> e \<noteq> [] \<and> list_all ext_char e)
      \<longrightarrow> convertedName (convertedFile f now) = file_name f)
   \<and> (CHR ''.'' \<notin> set (file_name f) \<longrightarrow> convertedName (convertedFile f now) = file_name f)
   \<and> \<not> suffix ''.flac'' (convertedName (convertedFile (f\<lparr>file_name := ''README''\<rparr>) now))"
proof (intro conjI allI impI)
  fix p e
  assume "file_name f = p @ CHR ''.'' # e \<and> e \<noteq> [] \<and> list_all ext_char e"
  then show "convertedName (convertedFile f now) = p @ ''.flac''"
    by (simp add: convertedFile_def replace_ext_append)
next
  assume "\<not> (\<exists>p e. file_name f = p @ CHR ''.'' # e \<and> e \<noteq> [] \<and> list_all ext_char e)"
  then have "\<not> has_extension (file_name f)" unfolding has_extension_iff .
  then show "convertedName (convertedFile f now) = file_name f"
    by (simp add: convertedFile_def replace_ext_no_extension)
next
  assume "CHR ''.'' \<notin> set (file_name f)"
  then show "convertedName (convertedFile f now) = file_name f"
    by (simp add: convertedFile_def replace_ext_no_dot)
next
  have "convertedName (convertedFile (f\<lparr>file_name := ''README''\<rparr>) now) = ''README''"
    by (simp add: convertedFile_def replace_ext_no_dot)
  then show "\<not> suffix ''.flac'' (convertedName (convertedFile (f\<lparr>file_name := ''README''\<rparr>) now))"
    by (simp add: suffix_def)
qed

theorem convertedName_spec_witness:
  "convertedName (convertedFile
      \<lparr>file_name = ''take.1.wav'', file_size = 10, file_type = ''audio/wav''\<rparr> ''t'')
     = ''take.1.flac''
   \<and> convertedName (convertedFile
      \<lparr>file_name = ''README'', file_size = 10, file_type = ''audio/wav''\<rparr> ''t'') = ''README''
   \<and> convertedName (convertedFile
      \<lparr>file_name = ''a.b/c'', file_size = 10, file_type = ''audio/wav''\<rparr> ''t'') = ''a.b/c''
   \<and> convertedName (convertedFile
      \<lparr>file_name = ''a..'', file_size = 10, file_type = ''audio/wav''\<rparr> ''t'') = ''a..''"
proof -
  let ?f = "\<lparr>file_name = ''take.1.wav'', file_size = 10, file_type = ''audio/wav''\<rparr>"
  let ?g = "\<lparr>file_name = ''README'', file_size = 10, file_type = ''audio/wav''\<rparr>"
  let ?h = "\<lparr>file_name = ''a.b/c'', file_size = 10, file_type = ''audio/wav''\<rparr>"
  let ?d = "\<lparr>file_name = ''a..'', file_size = 10, file_type = ''audio/wav''\<rparr>"
  have "\<not> has_extension (file_name ?h)" by (simp add: ext_char_def)
  then have "\<not> (\<exists>p e. file_name ?h = p @ CHR ''.'' # e \<and> e \<noteq> [] \<and> list_all ext_char e)"
    unfolding has_extension_iff .
  with convertedName_spec [of ?h "''t''"]
  have c: "convertedName (convertedFile ?h ''t'') = file_name ?h"
    by blast
  have "\<not> has_extension (file_name ?d)" by (simp add: ext_char_def)
  then have "\<not> (\<exists>p e. file_name ?d = p @ CHR ''.'' # e \<and> e \<noteq> [] \<and> list_all ext_char e)"
    unfolding has_extension_iff .
  with convertedName_spec [of ?d "''t''"]
  have d: "convertedName (convertedFile ?d ''t'') = file_name ?d"
    by blast
  have "file_name ?f = ''take.1'' @ CHR ''.'' # ''wav'' \<and> ''wav'' \<noteq> [] \<and> list_all ext_char ''wav''"
    by (simp add: ext_char_def)
  with convertedName_spec [of ?f "''t''"]
  have a: "convertedName (convertedFile ?f ''t'') = ''take.1'' @ ''.flac''"
    by blast
  have "CHR ''.'' \<notin> set (file_name ?g)" by simp
  with convertedName_spec [of ?g "''t''"]
  have b: "convertedName (convertedFile ?g ''t'') = file_name ?g"
    by blast
  from a b c d show ?thesis by simp
qed

subsection \<open>Claim C5\<close>

text \<open>
  C5, as stated: the estimated output size recorded in the output descriptor equals
  \<open>ceil(inputSize * 0.55)\<close>. For a file of 10 bytes that number is 6, and the descriptor
  holds the string \<open>5.5 Bytes\<close>: the product is formatted, never rounded up.
\<close>

theorem estimatedSize_ceil_counterexample:
  "estimatedSize (convertedFile
      \<lparr>file_name = ''a.wav'', file_size = 10, file_type = ''audio/wav''\<rparr>
      ''2024-01-01T00:00:00.000Z'') = ''5.5 Bytes''
   \<and> ceil_estimate 10 = 6
   \<and> number_to_string (of_int (ceil_estimate 10)) = ''6''
   \<and> estimatedSize (convertedFile
      \<lparr>file_name = ''a.wav'', file_size = 10, file_type = ''audio/wav''\<rparr>
      ''2024-01-01T00:00:00.000Z'') \<noteq> number_to_string (of_int (ceil_estimate 10))"
proof -
  have c: "ceil_estimate 10 = 6"
    by (simp add: ceil_estimate_def ceiling_eq_iff)
  have n: "number_to_string 6 = ''6''"
    by (simp add: number_to_string_def nat_to_string.simps digit_def)
  show ?thesis
    by (simp add: convertedFile_def estimateOutputSize_10 c n)
qed

text \<open>
  C5, amended: for every input file of 2 bytes up to the size ceiling of 1 GiB, the
  estimated output size recorded in the output descriptor is the string that
  \<open>formatFileSize\<close> makes of \<open>inputSize * 0.55\<close>, the factor being the constant 0.55: the
  product divided by \<open>1024^i\<close>, where \<open>1024^i \<le> product < 1024^(i+1)\<close> and \<open>i\<close> is 0, 1 or
  2, rounded to two decimals and followed by a blank and the unit \<open>Bytes\<close>, \<open>KB\<close> or \<open>MB\<close>.
  For an empty file it is \<open>0 Bytes\<close>. No ceiling is taken, and the value is a string.
\<close>

theorem estimatedSize_spec:
  "(file_size f = 0 \<longrightarrow> estimatedSize (convertedFile f now) = ''0 Bytes'')
   \<and> (2 \<le> file_size f \<and> file_size f \<le> 2 ^ 30 \<longrightarrow>
        (\<exists>i < 3. 1024 ^ i \<le> (of_nat (file_size f) :: rat) * (55 / 100)
           \<and> (of_nat (file_size f) :: rat) * (55 / 100) < 1024 ^ Suc i
           \<and> estimatedSize (convertedFile f now) =
               number_to_string
                 (of_int (js_round (of_nat (file_size f) * (55 / 100) / 1024 ^ i * 100)) / 100)
               @ '' '' @ [''Bytes'', ''KB'', ''MB''] ! i))"
proof (intro conjI impI)
  assume "file_size f = 0"
  then show "estimatedSize (convertedFile f now) = ''0 Bytes''"
    by (simp add: convertedFile_def estimateOutputSize_def formatFileSize_code)
next
  let ?b = "(of_nat (file_size f) :: rat) * (55 / 100)"
  assume range: "2 \<le> file_size f \<and> file_size f \<le> 2 ^ 30"
  then have "(2::rat) \<le> of_nat (file_size f)"
    by (metis of_nat_le_iff of_nat_numeral)
  then have lo: "1 \<le> ?b" by simp
  from range have "rat_of_nat (file_size f) \<le> rat_of_nat (2 ^ 30)"
    by (simp only: of_nat_le_iff)
  then have "rat_of_nat (file_size f) \<le> 1073741824" by simp
  then have hi: "?b < 1073741824" by simp
  have est: "estimatedSize (convertedFile f now) = formatFileSize ?b"
    by (simp add: convertedFile_def estimateOutputSize_def)
  consider (bytes) "?b < 1024" | (kb) "1024 \<le> ?b" "?b < 1048576" | (mb) "1048576 \<le> ?b"
    by linarith
  then show "\<exists>i < 3. 1024 ^ i \<le> ?b \<and> ?b < 1024 ^ Suc i
      \<and> estimatedSize (convertedFile f now) =
           number_to_string (of_int (js_round (?b / 1024 ^ i * 100)) / 100)
           @ '' '' @ [''Bytes'', ''KB'', ''MB''] ! i"
  proof cases
    case bytes
    have "formatFileSize ?b = number_to_string (of_int (js_round (?b / 1024 ^ 0 * 100)) / 100)
        @ '' '' @ sizes ! 0"
      using lo bytes by (intro formatFileSize_unit) simp_all
    with est lo bytes have "1024 ^ 0 \<le> ?b \<and> ?b < 1024 ^ Suc 0
        \<and> estimatedSize (convertedFile f now) =
           number_to_string (of_int (js_round (?b / 1024 ^ 0 * 100)) / 100)
           @ '' '' @ [''Bytes'', ''KB'', ''MB''] ! 0"
      by (simp add: sizes_def)
    moreover have "(0::nat) < 3" by simp
    ultimately show ?thesis by blast
  next
    case kb
    have "formatFileSize ?b = number_to_string (of_int (js_round (?b / 1024 ^ 1 * 100)) / 100)
        @ '' '' @ sizes ! 1"
      using kb by (intro formatFileSize_unit) simp_all
    with est kb have "1024 ^ 1 \<le> ?b \<and> ?b < 1024 ^ Suc 1
        \<and> estimatedSize (convertedFile f now) =
           number_to_string (of_int (js_round (?b / 1024 ^ 1 * 100)) / 100)
           @ '' '' @ [''Bytes'', ''KB'', ''MB''] ! 1"
      by (simp add: sizes_def)
    moreover have "(1::nat) < 3" by simp
    ultimately show ?thesis by blast
  next
    case mb
    have "formatFileSize ?b = number_to_string (of_int (js_round (?b / 1024 ^ 2 * 100)) / 100)
        @ '' '' @ sizes ! 2"
      using mb hi by (intro formatFileSize_unit) simp_all
    with est mb hi have "1024 ^ 2 \<le> ?b \<and> ?b < 1024 ^ Suc 2
        \<and> estimatedSize (convertedFile f now) =
           number_to_string (of_int (js_round (?b / 1024 ^ 2 * 100)) / 100)
           @ '' '' @ [''Bytes'', ''KB'', ''MB''] ! 2"
      by (simp add: sizes_def)
    moreover have "(2::nat) < 3" by simp
    ultimately show ?thesis by blast
  qed
qed

theorem estimatedSize_spec_witness:
  "estimatedSize (convertedFile
      \<lparr>file_name = ''a.wav'', file_size = 10485760, file_type = ''audio/wav''\<rparr> ''t'')
     = ''5.5 MB''
   \<and> estimatedSize (convertedFile
      \<lparr>file_name = ''a.wav'', file_size = 0, file_type = ''audio/wav''\<rparr> ''t'')
     = ''0 Bytes''"
proof -
  let ?f = "\<lparr>file_name = ''a.wav'', file_size = 10485760, file_type = ''audio/wav''\<rparr>"
  let ?e = "\<lparr>file_name = ''a.wav'', file_size = 0, file_type = ''audio/wav''\<rparr>"
  have s: "number_to_string (11 / 2) = ''5.5''"
    by (simp add: number_to_string_def nat_to_string.simps digit_def)
  have "2 \<le> file_size ?f \<and> file_size ?f \<le> 2 ^ 30" by simp
  with estimatedSize_spec [of ?f "''t''"]
  obtain i where i: "i < 3" "1024 ^ i \<le> (of_nat (file_size ?f) :: rat) * (55 / 100)"
      "(of_nat (file_size ?f) :: rat) * (55 / 100) < 1024 ^ Suc i"
      "estimatedSize (convertedFile ?f ''t'') =
         number_to_string
           (of_int (js_round (of_nat (file_size ?f) * (55 / 100) / 1024 ^ i * 100)) / 100)
         @ '' '' @ [''Bytes'', ''KB'', ''MB''] ! i"
    by blast
  from i(1) consider "i = 0" | "i = 1" | "i = 2" by linarith
  then have "i = 2"
  proof cases
    case 1
    with i(3) show ?thesis by simp
  next
    case 2
    with i(3) show ?thesis by simp
  next
    case 3
    then show ?thesis .
  qed
  with i(4) have a: "estimatedSize (convertedFile ?f ''t'') = ''5.5 MB''"
    by (simp add: s js_round_def floor_rat_numeral_div)
  have "file_size ?e = 0" by simp
  with estimatedSize_spec [of ?e "''t''"]
  have b: "estimatedSize (convertedFile ?e ''t'') = ''0 Bytes''" by blast
  from a b show ?thesis by blast
qed

subsection \<open>Facts about \<open>handleFiles\<close>\<close>

lemma reject_reason_eq:
  "reject_reason selected file =
     (if \<not> isValidAudioFile file then Some ''Format tidak didukung''
      else if \<not> file_size file \<le> 2 ^ 30 then Some ''File terlalu besar. Maksimum 1 GB''
      else if isDuplicate selected file then Some ''File sudah ada dalam daftar''
      else None)"
  by (simp add: reject_reason_def check_file_def Let_def validate_iff validate_message)

lemma check_file_step:
  "check_file selected (validFiles, invalidFiles) file =
     (case reject_reason selected file of
        None \<Rightarrow> (validFiles @ [file], invalidFiles)
      | Some reason \<Rightarrow> (validFiles, invalidFiles @ [(file_name file, reason)]))"
  by (simp add: reject_reason_def check_file_def Let_def)

text \<open>The entries the loop pushes to \<open>invalidFiles\<close>, in the order of the candidates.\<close>

fun rejected_entries :: "audio_file list \<Rightarrow> audio_file list \<Rightarrow> (string \<times> string) list" where
  "rejected_entries selected [] = []"
| "rejected_entries selected (c # cs) =
     (case reject_reason selected c of
        None \<Rightarrow> rejected_entries selected cs
      | Some reason \<Rightarrow> (file_name c, reason) # rejected_entries selected cs)"

lemma foldl_check_file:
  "foldl (check_file selected) (validFiles, invalidFiles) files =
     (validFiles @ filter (\<lambda>c. reject_reason selected c = None) files,
      invalidFiles @ rejected_entries selected files)"
proof (induction files arbitrary: validFiles invalidFiles)
  case Nil
  show ?case by simp
next
  case (Cons c cs)
  show ?case
  proof (cases "reject_reason selected c")
    case None
    then show ?thesis by (simp add: check_file_step Cons.IH)
  next
    case (Some reason)
    then show ?thesis by (simp add: check_file_step Cons.IH)
  qed
qed

lemma handleFiles_selected:
  assumes "\<not> isConverting st"
  shows "selectedFiles (fst (handleFiles st files)) =
     selectedFiles st @ filter (\<lambda>c. reject_reason (selectedFiles st) c = None) files"
  using assms foldl_check_file [of "selectedFiles st" "[]" "[]" files]
  by (simp add: handleFiles_def renderFileList_def)

text \<open>The rejections that \<open>handleFiles\<close> reports.\<close>

fun rejections :: "notification list \<Rightarrow> (string \<times> string) list" where
  "rejections [] = []"
| "rejections (FilesRejected entries # ns) = entries @ rejections ns"
| "rejections (n # ns) = rejections ns"

lemma handleFiles_rejections:
  assumes "\<not> isConverting st"
  shows "rejections (snd (handleFiles st files)) = rejected_entries (selectedFiles st) files"
  using assms foldl_check_file [of "selectedFiles st" "[]" "[]" files]
  by (simp add: handleFiles_def)

lemma isDuplicate_iff:
  "isDuplicate selected file \<longleftrightarrow>
     (\<exists>f \<in> set selected. file_name f = file_name file \<and> file_size f = file_size file)"
  by (simp add: isDuplicate_def list_ex_iff)

subsection \<open>Claim C6\<close>

text \<open>
  C6: validation against the size ceiling of 1 GiB (\<open>maxSize\<close>, \<open>1024 * 1024 * 1024\<close> bytes)
  accepts a file whose size is the ceiling exactly, with an empty message, and rejects a file
  of one byte more with a message that ends in the formatted ceiling, \<open>1 GB\<close>. In
  \<open>handleFiles\<close> an audio file of ceiling + 1 bytes is rejected with that message as its
  reason, and an audio file of exactly the ceiling, not selected before, is accepted.
\<close>

theorem validateFileSize_ceiling:
  "(file_size file = 2 ^ 30 \<longrightarrow>
      valid (validateFileSize file) \<and> message (validateFileSize file) = [])
   \<and> (file_size file = 2 ^ 30 + 1 \<longrightarrow>
      \<not> valid (validateFileSize file)
      \<and> message (validateFileSize file) =
          ''File terlalu besar. Maksimum ''
            @ formatFileSize (of_nat (maxSize (validateFileSize file))))
   \<and> maxSize (validateFileSize file) = 1024 * 1024 * 1024
   \<and> formatFileSize (of_nat (maxSize (validateFileSize file))) = ''1 GB''
   \<and> (isValidAudioFile file \<and> file_size file = 2 ^ 30 + 1 \<longrightarrow>
      reject_reason selected file = Some ''File terlalu besar. Maksimum 1 GB'')
   \<and> (isValidAudioFile file \<and> file_size file = 2 ^ 30 \<and> \<not> isDuplicate selected file \<longrightarrow>
      reject_reason selected file = None)"
proof -
  have fmt: "formatFileSize (of_nat (maxSize (validateFileSize file))) = ''1 GB''"
    using formatFileSize_1GB by (simp add: validate_maxSize)
  show ?thesis
    by (simp add: validate_iff validate_message fmt reject_reason_eq) (simp add: validate_maxSize)
qed

theorem validateFileSize_ceiling_witness:
  "\<not> valid (validateFileSize
        \<lparr>file_name = ''big.wav'', file_size = 1073741825, file_type = ''audio/wav''\<rparr>)
   \<and> message (validateFileSize
        \<lparr>file_name = ''big.wav'', file_size = 1073741825, file_type = ''audio/wav''\<rparr>)
      = ''File terlalu besar. Maksimum 1 GB''
   \<and> reject_reason []
        \<lparr>file_name = ''big.wav'', file_size = 1073741825, file_type = ''audio/wav''\<rparr>
      = Some ''File terlalu besar. Maksimum 1 GB''
   \<and> valid (validateFileSize
        \<lparr>file_name = ''max.wav'', file_size = 1073741824, file_type = ''audio/wav''\<rparr>)
   \<and> reject_reason []
        \<lparr>file_name = ''max.wav'', file_size = 1073741824, file_type = ''audio/wav''\<rparr> = None"
proof -
  let ?big = "\<lparr>file_name = ''big.wav'', file_size = 1073741825, file_type = ''audio/wav''\<rparr>"
  let ?max = "\<lparr>file_name = ''max.wav'', file_size = 1073741824, file_type = ''audio/wav''\<rparr>"
  have a: "isValidAudioFile ?big" "isValidAudioFile ?max"
    by (simp_all add: isValidAudioFile_def supportedFormats_def)
  have b: "file_size ?big = 2 ^ 30 + 1" "file_size ?max = 2 ^ 30"
    by simp_all
  have c: "\<not> isDuplicate [] ?max"
    by (simp add: isDuplicate_def)
  from validateFileSize_ceiling [of ?big "[]"] a(1) b(1)
  have big: "\<not> valid (validateFileSize ?big)"
    "message (validateFileSize ?big) = ''File terlalu besar. Maksimum '' @ ''1 GB''"
    "reject_reason [] ?big = Some ''File terlalu besar. Maksimum 1 GB''"
    by metis+
  from validateFileSize_ceiling [of ?max "[]"] a(2) b(2) c
  have mx: "valid (validateFileSize ?max)" "reject_reason [] ?max = None"
    by metis+
  from big mx show ?thesis by simp
qed

subsection \<open>Claim C7\<close>

text \<open>
  C7, as stated: a candidate is rejected as a duplicate exactly when a file with the same
  name and the same byte length is already in the accepted set. The checks run in order and
  the first that fails decides: a candidate whose type is not an audio type is rejected for
  its format, also when a file of its name and size has been accepted.
\<close>

theorem duplicate_rule_counterexample:
  "isDuplicate [\<lparr>file_name = ''a.wav'', file_size = 10, file_type = ''audio/wav''\<rparr>]
      \<lparr>file_name = ''a.wav'', file_size = 10, file_type = ''text/plain''\<rparr>
   \<and> snd (handleFiles
        \<lparr>selectedFiles = [\<lparr>file_name = ''a.wav'', file_size = 10, file_type = ''audio/wav''\<rparr>],
         isConverting = False,
         items = [createFileItem \<lparr>file_name = ''a.wav'', file_size = 10, file_type = ''audio/wav''\<rparr>],
         button = StartAll\<rparr>
        [\<lparr>file_name = ''a.wav'', file_size = 10, file_type = ''text/plain''\<rparr>])
     = [FilesRejected [(''a.wav'', ''Format tidak didukung'')]]"
  by (simp add: isDuplicate_def handleFiles_def check_file_def isValidAudioFile_def
      supportedFormats_def)

text \<open>
  C7, amended: while no conversion is running, a candidate that passes the type check and
  the size check is rejected as a duplicate exactly when a file with the same name and the
  same byte length is in the previously accepted set \<open>selectedFiles\<close>; a candidate that fails
  an earlier check is rejected with that check's reason instead. The accepted set is read,
  not updated, during the call: the files appended to it are the candidates with no reason
  to reject, in order, so two identical candidates that pass the checks and were not
  accepted before are both accepted in that call.
\<close>

theorem handleFiles_duplicate_rule:
  "(reject_reason selected c = Some ''File sudah ada dalam daftar'' \<longleftrightarrow>
      isValidAudioFile c \<and> file_size c \<le> 2 ^ 30
      \<and> (\<exists>f \<in> set selected. file_name f = file_name c \<and> file_size f = file_size c))
   \<and> (\<not> isConverting st \<longrightarrow>
        selectedFiles (fst (handleFiles st files)) =
          selectedFiles st @ filter (\<lambda>c. reject_reason (selectedFiles st) c = None) files
        \<and> rejections (snd (handleFiles st files)) = rejected_entries (selectedFiles st) files)
   \<and> (\<not> isConverting st \<and> reject_reason (selectedFiles st) c = None \<longrightarrow>
        selectedFiles (fst (handleFiles st [c, c])) = selectedFiles st @ [c, c])"
proof (intro conjI impI)
  show "reject_reason selected c = Some ''File sudah ada dalam daftar'' \<longleftrightarrow>
      isValidAudioFile c \<and> file_size c \<le> 2 ^ 30
      \<and> (\<exists>f \<in> set selected. file_name f = file_name c \<and> file_size f = file_size c)"
    by (simp add: reject_reason_eq isDuplicate_iff)
next
  assume "\<not> isConverting st"
  then show "selectedFiles (fst (handleFiles st files)) =
      selectedFiles st @ filter (\<lambda>c. reject_reason (selectedFiles st) c = None) files"
    by (rule handleFiles_selected)
next
  assume "\<not> isConverting st"
  then show "rejections (snd (handleFiles st files)) = rejected_entries (selectedFiles st) files"
    by (rule handleFiles_rejections)
next
  assume "\<not> isConverting st \<and> reject_reason (selectedFiles st) c = None"
  then show "selectedFiles (fst (handleFiles st [c, c])) = selectedFiles st @ [c, c]"
    by (simp add: handleFiles_selected)
qed

theorem handleFiles_duplicate_rule_witness:
  "reject_reason [\<lparr>file_name = ''a.wav'', file_size = 10, file_type = ''audio/wav''\<rparr>]
      \<lparr>file_name = ''a.wav'', file_size = 10, file_type = ''audio/mpeg''\<rparr>
     = Some ''File sudah ada dalam daftar''
   \<and> selectedFiles (fst (handleFiles
        \<lparr>selectedFiles = [], isConverting = False, items = [], button = StartAll\<rparr>
        [\<lparr>file_name = ''a.wav'', file_size = 10, file_type = ''audio/wav''\<rparr>,
         \<lparr>file_name = ''a.wav'', file_size = 10, file_type = ''audio/wav''\<rparr>]))
     = [\<lparr>file_name = ''a.wav'', file_size = 10, file_type = ''audio/wav''\<rparr>,
        \<lparr>file_name = ''a.wav'', file_size = 10, file_type = ''audio/wav''\<rparr>]"
proof -
  let ?a = "\<lparr>file_name = ''a.wav'', file_size = 10, file_type = ''audio/wav''\<rparr>"
  let ?b = "\<lparr>file_name = ''a.wav'', file_size = 10, file_type = ''audio/mpeg''\<rparr>"
  let ?st = "\<lparr>selectedFiles = [], isConverting = False, items = [], button = StartAll\<rparr>"
  have v: "isValidAudioFile ?a" "isValidAudioFile ?b"
    by (simp_all add: isValidAudioFile_def supportedFormats_def)
  have "isValidAudioFile ?b \<and> file_size ?b \<le> 2 ^ 30
      \<and> (\<exists>f \<in> set [?a]. file_name f = file_name ?b \<and> file_size f = file_size ?b)"
    using v by simp
  with handleFiles_duplicate_rule [of "[?a]" ?b ?st "[]"]
  have one: "reject_reason [?a] ?b = Some ''File sudah ada dalam daftar''"
    by blast
  have "reject_reason (selectedFiles ?st) ?a = None"
    using v by (simp add: reject_reason_eq isDuplicate_def)
  then have "\<not> isConverting ?st \<and> reject_reason (selectedFiles ?st) ?a = None"
    by simp
  with handleFiles_duplicate_rule [of "[]" ?a ?st "[]"]
  have two: "selectedFiles (fst (handleFiles ?st [?a, ?a])) = selectedFiles ?st @ [?a, ?a]"
    by blast
  from one two show ?thesis by simp
qed

subsection \<open>\<open>AudioConverter.convertToFLAC\<close>\<close>

text \<open>
  The promise that \<open>convertToFLAC\<close> returns is driven by two timers: an interval of 30 ms
  and one timeout of 1000 ms. The order in which the browser runs their callbacks, and what
  \<open>Math.random()\<close> and the clock return inside them, are inputs: \<open>Tick r now\<close> is a run of the
  interval callback in which \<open>Math.random()\<close> returns \<open>r\<close> and \<open>new Date().toISOString()\<close>
  would return \<open>now\<close>; \<open>Timeout r\<close> is the run of the timeout callback, \<open>Math.random()\<close>
  returning \<open>r\<close>.
\<close>

datatype timer_event = Tick rat string | Timeout rat

text \<open>The exceptions of the program: \<open>new Error(message)\<close>, and the \<open>RangeError\<close> of the
  platform.\<close>

datatype js_error = Error string | RangeError string

datatype 'a promise = Pending | Fulfilled 'a | Rejected js_error

text \<open>
  The state of one call: the local \<open>progress\<close>, whether the interval is still set, whether
  the timeout is still to fire, the state of the returned promise, and the values passed to
  \<open>progressCallback\<close> so far, oldest first.
\<close>

record conversion =
  progress :: rat
  intervalActive :: bool
  timeoutArmed :: bool
  promise :: "converted_file promise"
  reported :: "rat list"

text \<open>The promise executor: it sets \<open>progress\<close> to 0 and arms both timers.\<close>

definition start_conversion :: conversion where
  "start_conversion =
     \<lparr>progress = 0, intervalActive = True, timeoutArmed = True, promise = Pending,
      reported = []\<rparr>"

text \<open>\<open>resolve\<close> and \<open>reject\<close> of a promise: only the first call settles it.\<close>

definition resolve :: "converted_file \<Rightarrow> conversion \<Rightarrow> conversion" where
  "resolve v c = (case promise c of Pending \<Rightarrow> c\<lparr>promise := Fulfilled v\<rparr> | _ \<Rightarrow> c)"

definition reject :: "js_error \<Rightarrow> conversion \<Rightarrow> conversion" where
  "reject e c = (case promise c of Pending \<Rightarrow> c\<lparr>promise := Rejected e\<rparr> | _ \<Rightarrow> c)"

text \<open>
  One callback run. A cleared interval and a fired timeout run no more callbacks.
  \<^verbatim>\<open>
  const increment = Math.random() * 15 + 5;
  progress += increment;
  if (progress >= 100) { progress = 100; clearInterval(interval); ...; resolve(convertedFile); }
  else { progressCallback(Math.min(progress, 100)); }
  \<close>
  and
  \<^verbatim>\<open>
  if (Math.random() < 0.001) { clearInterval(interval); reject(new Error(...)); }
  \<close>
\<close>

fun on_event :: "audio_file \<Rightarrow> conversion \<Rightarrow> timer_event \<Rightarrow> conversion" where
  "on_event file c (Tick r now) =
     (if \<not> intervalActive c then c
      else let increment = r * 15 + 5; p = progress c + increment in
        if p \<ge> 100
        then resolve (convertedFile file now) (c\<lparr>progress := 100, intervalActive := False\<rparr>)
        else c\<lparr>progress := p, reported := reported c @ [min p 100]\<rparr>)"
| "on_event file c (Timeout r) =
     (if \<not> timeoutArmed c then c
      else if r < 1 / 1000
        then reject (Error ''Conversion failed: Simulated error'')
               (c\<lparr>timeoutArmed := False, intervalActive := False\<rparr>)
        else c\<lparr>timeoutArmed := False\<rparr>)"

text \<open>The state of the call \<open>convertToFLAC(file, progressCallback)\<close> after the timer
  callbacks \<open>events\<close> have run, in that order.\<close>

definition convertToFLAC :: "audio_file \<Rightarrow> timer_event list \<Rightarrow> conversion" where
  "convertToFLAC file events = foldl (on_event file) start_conversion events"




subsection \<open>Invariants of a conversion\<close>





lemma promise_stable_step:
  "promise c \<noteq> Pending \<Longrightarrow> promise (on_event file c e) = promise c"
  by (cases e) (auto simp: resolve_def reject_def Let_def split: promise.splits)

lemma promise_stable_run:
  "promise c \<noteq> Pending \<Longrightarrow> promise (foldl (on_event file) c events) = promise c"
  by (induction events arbitrary: c) (simp_all add: promise_stable_step)







lemma fulfilled_value_step:
  assumes "promise (on_event file c e) = Fulfilled v" and "promise c = Pending"
  shows "\<exists>r now. e = Tick r now \<and> v = convertedFile file now"
  using assms
  by (cases e) (auto simp: resolve_def reject_def Let_def split: if_splits promise.splits)

lemma fulfilled_value_run:
  assumes "promise (foldl (on_event file) c events) = Fulfilled v" and "promise c = Pending"
  shows "\<exists>r now. Tick r now \<in> set events \<and> v = convertedFile file now"
  using assms
proof (induction events arbitrary: c)
  case Nil
  then show ?case by simp
next
  case (Cons e es)
  show ?case
  proof (cases "promise (on_event file c e) = Pending")
    case True
    from Cons.IH [OF _ True] Cons.prems(1) show ?thesis by auto
  next
    case False
    then have "promise (foldl (on_event file) (on_event file c e) es) = promise (on_event file c e)"
      by (rule promise_stable_run)
    with Cons.prems(1) have "promise (on_event file c e) = Fulfilled v" by simp
    from fulfilled_value_step [OF this Cons.prems(2)] show ?thesis by auto
  qed
qed








subsection \<open>Claim C8\<close>


definition six_ticks :: "timer_event list" where
  "six_ticks = [Tick (14 / 15) ''t1'', Tick (14 / 15) ''t2'', Tick (14 / 15) ''t3'',
     Tick (14 / 15) ''t4'', Tick (14 / 15) ''t5'', Tick (14 / 15) ''t6'']"

lemma six_ticks_run:
  "convertToFLAC f six_ticks =
     \<lparr>progress = 100, intervalActive = False, timeoutArmed = True,
      promise = Fulfilled (convertedFile f ''t6''), reported = [19, 38, 57, 76, 95]\<rparr>"
  by (simp add: six_ticks_def convertToFLAC_def start_conversion_def resolve_def Let_def)



subsection \<open>\<open>AudioConverter.batchConvert\<close>\<close>

text \<open>\<open>xs.slice(start, stop)\<close> of an array: negative bounds count from the end, and both
  bounds are clamped to the array.\<close>

definition slice :: "'a list \<Rightarrow> int \<Rightarrow> int \<Rightarrow> 'a list" where
  "slice xs start stop =
     (let len = int (length xs);
          k = (if start < 0 then max (len + start) 0 else min start len);
          final = (if stop < 0 then max (len + stop) 0 else min stop len)
      in take (nat (final - k)) (drop (nat k) xs))"

text \<open>
  \<^verbatim>\<open>
  for (let i = 0; i < files.length; i += concurrentLimit) {
      chunks.push(files.slice(i, i + concurrentLimit));
  }
  \<close>
  An array holds at most \<open>2^32 - 1\<close> elements: \<open>push\<close> on an array of that length throws
  \<open>RangeError: Invalid array length\<close> (an engine that cannot grow the array throws the same
  error earlier). So the loop always ends: it is left with the chunks (\<open>Inr\<close>) or by the
  exception (\<open>Inl\<close>).
\<close>

definition max_array_length :: nat where
  "max_array_length = 2 ^ 32 - 1"

function chunk_loop ::
  "'a list \<Rightarrow> int \<Rightarrow> int \<Rightarrow> 'a list list \<Rightarrow> js_error + 'a list list" where
  "chunk_loop files concurrentLimit i chunks =
     (if i < int (length files)
      then if length chunks < max_array_length
           then chunk_loop files concurrentLimit (i + concurrentLimit)
                  (chunks @ [slice files i (i + concurrentLimit)])
           else Inl (RangeError ''Invalid array length'')
      else Inr chunks)"
  by pat_completeness auto
termination
  by (relation "measure (\<lambda>(files, concurrentLimit, i, chunks). max_array_length - length chunks)")
    auto

declare chunk_loop.simps [simp del]

text \<open>The windows of size \<open>k\<close> of a list, in order, for comparison with the loop.\<close>

function chunks_of :: "nat \<Rightarrow> 'a list \<Rightarrow> 'a list list" where
  "chunks_of k xs = (if k = 0 \<or> xs = [] then [] else take k xs # chunks_of k (drop k xs))"
  by pat_completeness auto
termination
  by (relation "measure (\<lambda>(k, xs). length xs)") auto

declare chunks_of.simps [simp del]


lemma chunks_of_Nil [simp]: "chunks_of k [] = []"
  by (simp add: chunks_of.simps)

lemma chunks_of_0 [simp]: "chunks_of 0 xs = []"
  by (simp add: chunks_of.simps)

lemma chunks_of_step: "0 < k \<Longrightarrow> xs \<noteq> [] \<Longrightarrow> chunks_of k xs = take k xs # chunks_of k (drop k xs)"
  by (subst chunks_of.simps) simp

lemma slice_nonneg:
  assumes i: "0 \<le> i" and k: "0 \<le> k"
  shows "slice xs i (i + k) = take (nat k) (drop (nat i) xs)"
proof -
  let ?len = "int (length xs)"
  consider (beyond) "?len \<le> i" | (inside) "i < ?len" "i + k \<le> ?len"
    | (over) "i < ?len" "?len < i + k"
    by linarith
  then show ?thesis
  proof cases
    case beyond
    then have "drop (nat i) xs = []" by simp
    with beyond i k show ?thesis by (simp add: slice_def Let_def min_def)
  next
    case inside
    with i k show ?thesis by (simp add: slice_def Let_def min_def)
  next
    case over
    then have "length (drop (nat i) xs) \<le> nat k" using i by simp
    then have "take (nat k) (drop (nat i) xs) = drop (nat i) xs" by simp
    moreover have "take (nat (?len - i)) (drop (nat i) xs) = drop (nat i) xs"
      using i by (simp add: nat_diff_distrib)
    ultimately show ?thesis using over i k by (simp add: slice_def Let_def min_def)
  qed
qed

lemma length_chunks_of_le: "0 < k \<Longrightarrow> length (chunks_of k xs) \<le> length xs"
proof (induction k xs rule: chunks_of.induct)
  case (1 k xs)
  show ?case
  proof (cases "xs = []")
    case True
    then show ?thesis by simp
  next
    case False
    with 1 have "length (chunks_of k (drop k xs)) \<le> length xs - k" by simp
    moreover have "0 < length xs" using False by simp
    ultimately have "Suc (length (chunks_of k (drop k xs))) \<le> length xs"
      using 1(2) by arith
    then show ?thesis using 1(2) False by (simp add: chunks_of_step)
  qed
qed

text \<open>With a positive limit the loop makes the windows of the list, unless they are more
  than an array can hold.\<close>

lemma chunk_loop_pos:
  assumes k: "0 < k" and i: "0 \<le> i"
    and room: "length chunks + length (chunks_of (nat k) (drop (nat i) files)) \<le> max_array_length"
  shows "chunk_loop files k i chunks = Inr (chunks @ chunks_of (nat k) (drop (nat i) files))"
  using i room
proof (induction "length files - nat i" arbitrary: i chunks rule: less_induct)
  case less
  show ?case
  proof (cases "i < int (length files)")
    case False
    then have "drop (nat i) files = []" by simp
    with False show ?thesis by (subst chunk_loop.simps) simp
  next
    case True
    then have ne: "drop (nat i) files \<noteq> []" using less.prems by simp
    have nk: "0 < nat k" using k by simp
    have dec: "length files - nat (i + k) < length files - nat i"
      using True k less.prems by linarith
    have i': "0 \<le> i + k" using k less.prems by simp
    have sl: "slice files i (i + k) = take (nat k) (drop (nat i) files)"
      using less.prems k by (simp add: slice_nonneg)
    have dr: "drop (nat (i + k)) files = drop (nat k) (drop (nat i) files)"
      using less.prems k by (simp add: nat_add_distrib add.commute)
    have step: "chunks_of (nat k) (drop (nat i) files)
        = take (nat k) (drop (nat i) files) # chunks_of (nat k) (drop (nat (i + k)) files)"
      unfolding dr using nk ne by (rule chunks_of_step)
    from less.prems(2) have room': "length (chunks @ [slice files i (i + k)])
        + length (chunks_of (nat k) (drop (nat (i + k)) files)) \<le> max_array_length"
      unfolding step by simp
    from less.prems(2) have free: "length chunks < max_array_length"
      unfolding step by simp
    have "chunk_loop files k i chunks
        = chunk_loop files k (i + k) (chunks @ [slice files i (i + k)])"
      using True free by (subst chunk_loop.simps) simp
    also have "\<dots> = Inr ((chunks @ [slice files i (i + k)])
        @ chunks_of (nat k) (drop (nat (i + k)) files))"
      using dec i' room' by (rule less.hyps)
    also have "(chunks @ [slice files i (i + k)]) @ chunks_of (nat k) (drop (nat (i + k)) files)
        = chunks @ chunks_of (nat k) (drop (nat i) files)"
      unfolding step sl by simp
    finally show ?thesis .
  qed
qed

text \<open>With a limit that is not positive the index never reaches the length of a list that
  is not empty: the loop pushes until the array is full, and throws.\<close>

lemma chunk_loop_nonpos:
  assumes k: "k \<le> 0" and i: "i < int (length files)"
  shows "chunk_loop files k i chunks = Inl (RangeError ''Invalid array length'')"
  using i
proof (induction "max_array_length - length chunks" arbitrary: i chunks rule: less_induct)
  case less
  show ?case
  proof (cases "length chunks < max_array_length")
    case False
    with less.prems show ?thesis by (subst chunk_loop.simps) simp
  next
    case True
    have dec: "max_array_length - length (chunks @ [slice files i (i + k)])
        < max_array_length - length chunks"
      using True by simp
    have i': "i + k < int (length files)" using k less.prems by simp
    have "chunk_loop files k i chunks
        = chunk_loop files k (i + k) (chunks @ [slice files i (i + k)])"
      using True less.prems by (subst chunk_loop.simps) simp
    also have "\<dots> = Inl (RangeError ''Invalid array length'')"
      using dec i' by (rule less.hyps)
    finally show ?thesis .
  qed
qed

lemma concat_chunks_of: "0 < k \<Longrightarrow> concat (chunks_of k xs) = xs"
proof (induction k xs rule: chunks_of.induct)
  case (1 k xs)
  show ?case
  proof (cases "xs = []")
    case True
    then show ?thesis by simp
  next
    case False
    with 1 show ?thesis by (simp add: chunks_of_step)
  qed
qed




subsection \<open>Windows of concurrent conversions\<close>

text \<open>
  What an observer of a batch sees, in the order it happens: \<open>Started i\<close> when
  \<open>convertToFLAC\<close> is called for the task with index \<open>i\<close> in the submitted list,
  \<open>Progress i p\<close> when its progress callback is called with \<open>p\<close>, \<open>Settled i\<close> when its promise
  is fulfilled or rejected, and \<open>BatchProgress c t\<close> for a call
  \<open>updateConversionProgress(c, t)\<close>.
\<close>

datatype trace_event = Started nat | Progress nat rat | Settled nat | BatchProgress nat nat

text \<open>
  The conversions of one window run concurrently: the timer callbacks of its tasks
  interleave. A schedule lists the callbacks of a window in the order they run, each with the
  position of its task in the window.
\<close>

type_synonym schedule = "(nat \<times> timer_event) list"

text \<open>The callbacks of the task at position \<open>i\<close>, in order.\<close>

definition events_of :: "nat \<Rightarrow> schedule \<Rightarrow> timer_event list" where
  "events_of i sched = map snd (filter (\<lambda>ev. fst ev = i) sched)"

text \<open>
  One callback of a window whose first task has index \<open>base\<close>: the conversion at the
  position advances, and what it reports and whether it settles is observed.
\<close>

definition window_step ::
  "nat \<Rightarrow> audio_file list \<Rightarrow> conversion list \<times> trace_event list \<Rightarrow> nat \<times> timer_event
    \<Rightarrow> conversion list \<times> trace_event list" where
  "window_step base chunk st ev =
     (case st of (convs, tr) \<Rightarrow> case ev of (i, e) \<Rightarrow>
        if i < length convs then
          let c = convs ! i; c' = on_event (chunk ! i) c e in
            (convs[i := c'],
             tr @ map (Progress (base + i)) (drop (length (reported c)) (reported c'))
                @ (if promise c = Pending \<and> promise c' \<noteq> Pending
                   then [Settled (base + i)] else []))
        else (convs, tr))"

text \<open>\<open>chunk.map(file => this.convertToFLAC(file, ...))\<close> starts every conversion of the
  window; then the callbacks of the schedule run.\<close>

definition run_window ::
  "nat \<Rightarrow> audio_file list \<Rightarrow> schedule \<Rightarrow> conversion list \<times> trace_event list" where
  "run_window base chunk sched =
     foldl (window_step base chunk)
       (map (\<lambda>file. start_conversion) chunk, map Started [base..<base + length chunk]) sched"

text \<open>
  \<open>Promise.all\<close>: rejected as soon as one promise is rejected, fulfilled with the values in
  the order of the promises when all are fulfilled, pending otherwise. Every rejection of
  \<open>convertToFLAC\<close> carries the same error, so the first rejected promise of the list stands
  for the first in time.
\<close>

fun first_rejection :: "'a promise list \<Rightarrow> js_error option" where
  "first_rejection [] = None"
| "first_rejection (Rejected e # ps) = Some e"
| "first_rejection (p # ps) = first_rejection ps"

fun fulfilled_values :: "'a promise list \<Rightarrow> 'a list option" where
  "fulfilled_values [] = Some []"
| "fulfilled_values (Fulfilled v # ps) = map_option ((#) v) (fulfilled_values ps)"
| "fulfilled_values (p # ps) = None"

definition promise_all :: "'a promise list \<Rightarrow> 'a list promise" where
  "promise_all ps =
     (case first_rejection ps of
        Some e \<Rightarrow> Rejected e
      | None \<Rightarrow> (case fulfilled_values ps of Some vs \<Rightarrow> Fulfilled vs | None \<Rightarrow> Pending))"

text \<open>The schedule of the window at hand, and those of the windows after it.\<close>

definition next_sched :: "schedule list \<Rightarrow> schedule" where
  "next_sched scheds = (case scheds of [] \<Rightarrow> [] | s # ss \<Rightarrow> s)"

text \<open>
  \<^verbatim>\<open>
  for (const chunk of chunks) {
      const chunkResults = await Promise.all(chunk.map(...));
      results.push(...chunkResults);
  }
  return results;
  \<close>
  The \<open>await\<close> continues when the promise of the window is fulfilled, throws when it is
  rejected (which rejects the promise of \<open>batchConvert\<close>), and never continues while it is
  pending. \<open>base\<close> is the index of the first task of the window. Callbacks of a window that run
  after its promise has settled are taken before the next window; they report nothing.
\<close>

fun process_chunks ::
  "audio_file list list \<Rightarrow> schedule list \<Rightarrow> nat \<Rightarrow> converted_file list \<Rightarrow> trace_event list
    \<Rightarrow> converted_file list promise \<times> trace_event list" where
  "process_chunks [] scheds base results tr = (Fulfilled results, tr)"
| "process_chunks (chunk # chunks) scheds base results tr =
     (case run_window base chunk (next_sched scheds) of (convs, tr') \<Rightarrow>
        (case promise_all (map promise convs) of
           Fulfilled chunkResults \<Rightarrow>
             process_chunks chunks (tl scheds) (base + length chunk)
               (results @ chunkResults) (tr @ tr')
         | Rejected e \<Rightarrow> (Rejected e, tr @ tr')
         | Pending \<Rightarrow> (Pending, tr @ tr')))"

text \<open>
  \<open>batchConvert(files, progressCallback, concurrentLimit)\<close>: the promise it returns and
  what is observed. An exception thrown in the body of the \<open>async\<close> function rejects its
  promise; when the chunking loop throws, no conversion has been started.
\<close>

definition batchConvert ::
  "audio_file list \<Rightarrow> int \<Rightarrow> schedule list
    \<Rightarrow> converted_file list promise \<times> trace_event list" where
  "batchConvert files concurrentLimit scheds =
     (case chunk_loop files concurrentLimit 0 [] of
        Inl e \<Rightarrow> (Rejected e, [])
      | Inr chunks \<Rightarrow> process_chunks chunks scheds 0 [] [])"

text \<open>Every conversion of the window is fulfilled under the schedule.\<close>

fun is_Fulfilled :: "'a promise \<Rightarrow> bool" where
  "is_Fulfilled (Fulfilled v) = True"
| "is_Fulfilled p = False"

definition window_fulfils :: "audio_file list \<Rightarrow> schedule \<Rightarrow> bool" where
  "window_fulfils chunk sched =
     list_all (\<lambda>i. is_Fulfilled (promise (convertToFLAC (chunk ! i) (events_of i sched))))
       [0..<length chunk]"

fun all_fulfil :: "audio_file list list \<Rightarrow> schedule list \<Rightarrow> bool" where
  "all_fulfil [] scheds = True"
| "all_fulfil (chunk # chunks) scheds =
     (window_fulfils chunk (next_sched scheds) \<and> all_fulfil chunks (tl scheds))"

fun is_Started :: "trace_event \<Rightarrow> bool" where
  "is_Started (Started i) = True"
| "is_Started ev = False"

fun is_BatchProgress :: "trace_event \<Rightarrow> bool" where
  "is_BatchProgress (BatchProgress c t) = True"
| "is_BatchProgress ev = False"

text \<open>
  The barrier, as a check of a trace: when a task is started, every task with an index below
  \<open>start j\<close> (the first index of the window of \<open>j\<close>) is among the tasks settled so far.
\<close>

fun barrier :: "(nat \<Rightarrow> nat) \<Rightarrow> nat set \<Rightarrow> trace_event list \<Rightarrow> bool" where
  "barrier start S [] = True"
| "barrier start S (Started j # tr) = ({..<start j} \<subseteq> S \<and> barrier start S tr)"
| "barrier start S (Settled i # tr) = barrier start (insert i S) tr"
| "barrier start S (Progress i p # tr) = barrier start S tr"
| "barrier start S (BatchProgress c t # tr) = barrier start S tr"

definition settled_in :: "trace_event list \<Rightarrow> nat set" where
  "settled_in tr = {i. Settled i \<in> set tr}"

definition quiet :: "trace_event \<Rightarrow> bool" where
  "quiet ev = (\<not> is_Started ev \<and> \<not> is_BatchProgress ev)"

text \<open>The relation between a file and an output descriptor made for it.\<close>

definition descriptor_of :: "audio_file \<Rightarrow> converted_file \<Rightarrow> bool" where
  "descriptor_of f d = (\<exists>now. d = convertedFile f now)"

text \<open>Two schedules that give every task the same callbacks, interleaved differently.\<close>

definition same_callbacks :: "schedule \<Rightarrow> schedule \<Rightarrow> bool" where
  "same_callbacks s s' = (\<forall>i. events_of i s = events_of i s')"


lemma events_of_Nil [simp]: "events_of i [] = []"
  by (simp add: events_of_def)

lemma events_of_Cons:
  "events_of i ((j, e) # sched) = (if j = i then e # events_of i sched else events_of i sched)"
  by (simp add: events_of_def)

lemma window_step_length: "length (fst (window_step base chunk (convs, tr) ev)) = length convs"
  by (cases ev) (simp add: window_step_def Let_def)

lemma window_step_fst:
  "fst (window_step base chunk (convs, tr) (j, e)) =
     (if j < length convs then convs[j := on_event (chunk ! j) (convs ! j) e] else convs)"
  by (simp add: window_step_def Let_def)

text \<open>Each conversion of a window sees its own callbacks only.\<close>

lemma foldl_window_step_fst:
  "fst (foldl (window_step base chunk) (convs, tr) sched) =
     map (\<lambda>i. foldl (on_event (chunk ! i)) (convs ! i) (events_of i sched)) [0..<length convs]"
proof (induction sched arbitrary: convs tr)
  case Nil
  show ?case by (simp add: map_nth)
next
  case (Cons ev sched)
  obtain j e where ev: "ev = (j, e)" by (cases ev)
  obtain convs' tr' where st: "window_step base chunk (convs, tr) (j, e) = (convs', tr')"
    by (cases "window_step base chunk (convs, tr) (j, e)")
  have c': "convs' = (if j < length convs then convs[j := on_event (chunk ! j) (convs ! j) e] else convs)"
    using window_step_fst [of base chunk convs tr j e] st by simp
  then have len: "length convs' = length convs" by simp
  have "fst (foldl (window_step base chunk) (convs, tr) (ev # sched)) =
      map (\<lambda>i. foldl (on_event (chunk ! i)) (convs' ! i) (events_of i sched)) [0..<length convs']"
    using Cons.IH [of convs' tr'] by (simp add: ev st)
  also have "\<dots> = map (\<lambda>i. foldl (on_event (chunk ! i)) (convs ! i) (events_of i (ev # sched)))
      [0..<length convs]"
    unfolding len
  proof (rule map_cong [OF refl])
    fix i assume "i \<in> set [0..<length convs]"
    then have i: "i < length convs" by simp
    show "foldl (on_event (chunk ! i)) (convs' ! i) (events_of i sched) =
        foldl (on_event (chunk ! i)) (convs ! i) (events_of i (ev # sched))"
    proof (cases "j = i")
      case True
      with i c' show ?thesis by (simp add: ev events_of_Cons)
    next
      case False
      with i c' show ?thesis by (simp add: ev events_of_Cons)
    qed
  qed
  finally show ?case .
qed

lemma run_window_fst:
  "fst (run_window base chunk sched) =
     map (\<lambda>i. convertToFLAC (chunk ! i) (events_of i sched)) [0..<length chunk]"
  unfolding run_window_def foldl_window_step_fst by (simp add: convertToFLAC_def)

lemma run_window_length: "length (fst (run_window base chunk sched)) = length chunk"
  by (simp add: run_window_fst)


lemma settled_in_append [simp]: "settled_in (xs @ ys) = settled_in xs \<union> settled_in ys"
  by (auto simp: settled_in_def)

lemma settled_in_Nil [simp]: "settled_in [] = {}"
  by (simp add: settled_in_def)

lemma barrier_append:
  "barrier start S (xs @ ys) \<longleftrightarrow> barrier start S xs \<and> barrier start (S \<union> settled_in xs) ys"
proof (induction xs arbitrary: S)
  case Nil
  show ?case by simp
next
  case (Cons x xs)
  show ?case
  proof (cases x)
    case (Settled i)
    have "insert i S \<union> settled_in xs = S \<union> settled_in (Settled i # xs)"
      by (auto simp: settled_in_def)
    with Settled Cons.IH [of "insert i S"] show ?thesis by simp
  next
    case (Started j)
    have "settled_in (Started j # xs) = settled_in xs" by (auto simp: settled_in_def)
    with Started Cons.IH [of S] show ?thesis by auto
  next
    case (Progress i p)
    have "settled_in (Progress i p # xs) = settled_in xs" by (auto simp: settled_in_def)
    with Progress Cons.IH [of S] show ?thesis by auto
  next
    case (BatchProgress c t)
    have "settled_in (BatchProgress c t # xs) = settled_in xs" by (auto simp: settled_in_def)
    with BatchProgress Cons.IH [of S] show ?thesis by auto
  qed
qed

lemma barrier_quiet: "list_all quiet body \<Longrightarrow> barrier start S body"
proof (induction body arbitrary: S)
  case Nil
  show ?case by simp
next
  case (Cons x xs)
  then show ?case by (cases x) (simp_all add: quiet_def)
qed

lemma barrier_split:
  assumes "barrier start S (pre @ Started j # post)"
  shows "{..<start j} \<subseteq> S \<union> settled_in pre"
  using assms by (simp add: barrier_append)

lemma barrier_started:
  "(\<forall>j \<in> set js. {..<start j} \<subseteq> S) \<Longrightarrow> barrier start S (map Started js)"
  by (induction js) simp_all

lemma window_step_snd:
  "\<exists>b. snd (window_step base chunk (convs, tr) (j, e)) = tr @ b \<and> list_all quiet b
     \<and> (j < length convs \<and> promise (convs ! j) = Pending
          \<and> promise (fst (window_step base chunk (convs, tr) (j, e)) ! j) \<noteq> Pending
        \<longrightarrow> Settled (base + j) \<in> set b)"
  by (auto simp: window_step_def Let_def quiet_def list_all_iff)

lemma foldl_window_step_snd:
  "\<exists>body. snd (foldl (window_step base chunk) (convs, tr) sched) = tr @ body
     \<and> list_all quiet body
     \<and> (\<forall>i < length convs.
          promise (fst (foldl (window_step base chunk) (convs, tr) sched) ! i) \<noteq> Pending
          \<longrightarrow> promise (convs ! i) \<noteq> Pending \<or> Settled (base + i) \<in> set body)"
proof (induction sched arbitrary: convs tr)
  case Nil
  show ?case by simp
next
  case (Cons ev sched)
  obtain j e where ev: "ev = (j, e)" by (cases ev)
  obtain convs' tr' where st: "window_step base chunk (convs, tr) (j, e) = (convs', tr')"
    by (cases "window_step base chunk (convs, tr) (j, e)")
  from window_step_snd [of base chunk convs tr j e] st
  obtain b where b: "tr' = tr @ b" "list_all quiet b"
    "j < length convs \<and> promise (convs ! j) = Pending \<and> promise (convs' ! j) \<noteq> Pending
      \<longrightarrow> Settled (base + j) \<in> set b"
    by auto
  have c': "convs' = (if j < length convs then convs[j := on_event (chunk ! j) (convs ! j) e] else convs)"
    using window_step_fst [of base chunk convs tr j e] st by simp
  then have len: "length convs' = length convs" by simp
  from Cons.IH [of convs' tr']
  obtain body where body: "snd (foldl (window_step base chunk) (convs', tr') sched) = tr' @ body"
    "list_all quiet body"
    "\<forall>i < length convs'.
        promise (fst (foldl (window_step base chunk) (convs', tr') sched) ! i) \<noteq> Pending
        \<longrightarrow> promise (convs' ! i) \<noteq> Pending \<or> Settled (base + i) \<in> set body"
    by blast
  let ?final = "foldl (window_step base chunk) (convs, tr) (ev # sched)"
  have fin: "?final = foldl (window_step base chunk) (convs', tr') sched"
    by (simp add: ev st)
  have 1: "snd ?final = tr @ (b @ body)" using body(1) b(1) fin by simp
  have 2: "list_all quiet (b @ body)" using b(2) body(2) by simp
  have 3: "\<forall>i < length convs. promise (fst ?final ! i) \<noteq> Pending
      \<longrightarrow> promise (convs ! i) \<noteq> Pending \<or> Settled (base + i) \<in> set (b @ body)"
  proof (intro allI impI)
    fix i assume i: "i < length convs" and np: "promise (fst ?final ! i) \<noteq> Pending"
    from body(3) i len np fin
    have d: "promise (convs' ! i) \<noteq> Pending \<or> Settled (base + i) \<in> set body" by simp
    show "promise (convs ! i) \<noteq> Pending \<or> Settled (base + i) \<in> set (b @ body)"
    proof (cases "Settled (base + i) \<in> set body")
      case True
      then show ?thesis by simp
    next
      case False
      with d have np': "promise (convs' ! i) \<noteq> Pending" by simp
      show ?thesis
      proof (cases "j = i")
        case True
        with b(3) i np' show ?thesis by auto
      next
        case False
        with c' i np' show ?thesis by (auto split: if_splits)
      qed
    qed
  qed
  from 1 2 3 show ?case by blast
qed

lemma run_window_snd:
  "\<exists>body. snd (run_window base chunk sched) = map Started [base..<base + length chunk] @ body
     \<and> list_all quiet body
     \<and> (\<forall>i < length chunk. promise (fst (run_window base chunk sched) ! i) \<noteq> Pending
          \<longrightarrow> Settled (base + i) \<in> set body)"
proof -
  let ?convs = "map (\<lambda>file. start_conversion) chunk"
  from foldl_window_step_snd [of base chunk ?convs "map Started [base..<base + length chunk]" sched]
  obtain body where body:
    "snd (run_window base chunk sched) = map Started [base..<base + length chunk] @ body"
    "list_all quiet body"
    "\<forall>i < length ?convs. promise (fst (run_window base chunk sched) ! i) \<noteq> Pending
        \<longrightarrow> promise (?convs ! i) \<noteq> Pending \<or> Settled (base + i) \<in> set body"
    unfolding run_window_def by blast
  have "\<forall>i < length chunk. promise (fst (run_window base chunk sched) ! i) \<noteq> Pending
      \<longrightarrow> Settled (base + i) \<in> set body"
    using body(3) by (simp add: start_conversion_def)
  with body(1,2) show ?thesis by blast
qed

lemma promise_all_Fulfilled:
  "promise_all ps = Fulfilled vs \<longleftrightarrow> ps = map Fulfilled vs"
proof (induction ps arbitrary: vs)
  case Nil
  show ?case by (auto simp: promise_all_def)
next
  case (Cons p ps)
  show ?case
  proof (cases p)
    case Pending
    then show ?thesis
      by (cases vs) (auto simp: promise_all_def split: option.splits)
  next
    case (Rejected e)
    then show ?thesis
      by (cases vs) (auto simp: promise_all_def split: option.splits)
  next
    case (Fulfilled v)
    show ?thesis
    proof (cases vs)
      case Nil
      with Fulfilled show ?thesis
        by (auto simp: promise_all_def split: option.splits)
    next
      case (Cons u us)
      from Cons.IH [of us] have IH: "promise_all ps = Fulfilled us \<longleftrightarrow> ps = map Fulfilled us" .
      have "promise_all (p # ps) = Fulfilled vs \<longleftrightarrow> v = u \<and> promise_all ps = Fulfilled us"
        using Fulfilled Cons
        by (auto simp: promise_all_def split: option.splits)
      with IH Fulfilled Cons show ?thesis by auto
    qed
  qed
qed

lemma all_Fulfilled_map: "list_all is_Fulfilled ps \<Longrightarrow> \<exists>vs. ps = map Fulfilled vs"
proof (induction ps)
  case Nil
  show ?case by simp
next
  case (Cons p ps)
  then obtain vs where "ps = map Fulfilled vs" by auto
  moreover from Cons.prems obtain v where "p = Fulfilled v" by (cases p) simp_all
  ultimately have "p # ps = map Fulfilled (v # vs)" by simp
  then show ?case by (rule exI)
qed


lemma window_descriptors:
  assumes "promise_all (map promise (fst (run_window base chunk sched))) = Fulfilled vs"
  shows "list_all2 descriptor_of chunk vs"
proof -
  let ?ps = "map (\<lambda>i. promise (convertToFLAC (chunk ! i) (events_of i sched))) [0..<length chunk]"
  from assms have eq: "?ps = map Fulfilled vs"
    by (simp add: promise_all_Fulfilled run_window_fst comp_def)
  then have len: "length vs = length chunk"
    by (metis length_map length_upt minus_nat.diff_0)
  have "\<forall>i < length chunk. descriptor_of (chunk ! i) (vs ! i)"
  proof (intro allI impI)
    fix i assume i: "i < length chunk"
    with eq len have "?ps ! i = Fulfilled (vs ! i)" by simp
    with i have "promise (convertToFLAC (chunk ! i) (events_of i sched)) = Fulfilled (vs ! i)"
      by simp
    then have "promise (foldl (on_event (chunk ! i)) start_conversion (events_of i sched))
        = Fulfilled (vs ! i)"
      by (simp add: convertToFLAC_def)
    from fulfilled_value_run [OF this] show "descriptor_of (chunk ! i) (vs ! i)"
      by (auto simp: descriptor_of_def start_conversion_def)
  qed
  with len show ?thesis by (simp add: list_all2_conv_all_nth)
qed

lemma process_chunks_result:
  assumes "fst (process_chunks chunks scheds base rs tr) = Fulfilled out"
  shows "\<exists>new. out = rs @ new \<and> list_all2 descriptor_of (concat chunks) new"
  using assms
proof (induction chunks arbitrary: scheds base rs tr)
  case Nil
  then show ?case by simp
next
  case (Cons chunk chunks)
  obtain convs tr' where w: "run_window base chunk (next_sched scheds) = (convs, tr')"
    by (cases "run_window base chunk (next_sched scheds)")
  show ?case
  proof (cases "promise_all (map promise convs)")
    case Pending
    with Cons.prems w show ?thesis by simp
  next
    case (Rejected e)
    with Cons.prems w show ?thesis by simp
  next
    case (Fulfilled vs)
    with w have "promise_all (map promise (fst (run_window base chunk (next_sched scheds))))
        = Fulfilled vs" by simp
    then have d: "list_all2 descriptor_of chunk vs" by (rule window_descriptors)
    from Cons.prems w Fulfilled
    have "fst (process_chunks chunks (tl scheds) (base + length chunk) (rs @ vs) (tr @ tr'))
        = Fulfilled out" by simp
    from Cons.IH [OF this] obtain new where
      new: "out = (rs @ vs) @ new" "list_all2 descriptor_of (concat chunks) new" by blast
    have "list_all2 descriptor_of (concat (chunk # chunks)) (vs @ new)"
      using d new(2) by (simp add: list_all2_appendI)
    with new(1) show ?thesis by auto
  qed
qed

lemma window_fulfils_all:
  assumes "window_fulfils chunk sched"
  shows "\<exists>vs. promise_all (map promise (fst (run_window base chunk sched))) = Fulfilled vs"
proof -
  have "list_all is_Fulfilled (map promise (fst (run_window base chunk sched)))"
    using assms by (simp add: window_fulfils_def run_window_fst list_all_iff)
  then obtain vs where "map promise (fst (run_window base chunk sched)) = map Fulfilled vs"
    using all_Fulfilled_map by blast
  then have "promise_all (map promise (fst (run_window base chunk sched))) = Fulfilled vs"
    by (simp only: promise_all_Fulfilled)
  then show ?thesis by (rule exI)
qed

lemma process_chunks_all_fulfil:
  assumes "all_fulfil chunks scheds"
  shows "\<exists>out. fst (process_chunks chunks scheds base rs tr) = Fulfilled out"
  using assms
proof (induction chunks arbitrary: scheds base rs tr)
  case Nil
  show ?case by simp
next
  case (Cons chunk chunks)
  obtain convs tr' where w: "run_window base chunk (next_sched scheds) = (convs, tr')"
    by (cases "run_window base chunk (next_sched scheds)")
  from Cons.prems have "window_fulfils chunk (next_sched scheds)" by simp
  from window_fulfils_all [OF this, of base] w
  obtain vs where vs: "promise_all (map promise convs) = Fulfilled vs" by auto
  from Cons.prems have "all_fulfil chunks (tl scheds)" by simp
  from Cons.IH [OF this, of "base + length chunk" "rs @ vs" "tr @ tr'"]
  show ?case using w vs by simp
qed

lemma process_chunks_quiet:
  "\<exists>ext. snd (process_chunks chunks scheds base rs tr) = tr @ ext
     \<and> list_all (\<lambda>ev. \<not> is_BatchProgress ev) ext"
proof (induction chunks arbitrary: scheds base rs tr)
  case Nil
  show ?case by simp
next
  case (Cons chunk chunks)
  obtain convs tr' where w: "run_window base chunk (next_sched scheds) = (convs, tr')"
    by (cases "run_window base chunk (next_sched scheds)")
  from run_window_snd [of base chunk "next_sched scheds"] w
  obtain body where body: "tr' = map Started [base..<base + length chunk] @ body"
    "list_all quiet body" by auto
  have q: "list_all (\<lambda>ev. \<not> is_BatchProgress ev) tr'"
    unfolding body(1) using body(2) by (auto simp: list_all_iff quiet_def)
  show ?case
  proof (cases "promise_all (map promise convs)")
    case Pending
    with w q show ?thesis by simp
  next
    case (Rejected e)
    with w q show ?thesis by simp
  next
    case (Fulfilled vs)
    from Cons.IH [of "tl scheds" "base + length chunk" "rs @ vs" "tr @ tr'"]
    obtain ext where ext: "snd (process_chunks chunks (tl scheds) (base + length chunk)
        (rs @ vs) (tr @ tr')) = (tr @ tr') @ ext" "list_all (\<lambda>ev. \<not> is_BatchProgress ev) ext"
      by blast
    have "snd (process_chunks (chunk # chunks) scheds base rs tr) = tr @ (tr' @ ext)"
      using w Fulfilled ext(1) by simp
    moreover have "list_all (\<lambda>ev. \<not> is_BatchProgress ev) (tr' @ ext)"
      using q ext(2) by simp
    ultimately show ?thesis by blast
  qed
qed

lemma same_callbacks_window:
  "same_callbacks s s' \<Longrightarrow> fst (run_window base chunk s) = fst (run_window base' chunk s')"
  by (simp add: run_window_fst same_callbacks_def)

lemma process_chunks_interleaving:
  assumes "list_all2 same_callbacks scheds scheds'"
  shows "fst (process_chunks chunks scheds base rs tr)
       = fst (process_chunks chunks scheds' base rs tr2)"
  using assms
proof (induction chunks arbitrary: scheds scheds' base rs tr tr2)
  case Nil
  show ?case by simp
next
  case (Cons chunk chunks)
  have n: "same_callbacks (next_sched scheds) (next_sched scheds')"
    using Cons.prems
    by (cases scheds; cases scheds') (simp_all add: next_sched_def same_callbacks_def)
  have t: "list_all2 same_callbacks (tl scheds) (tl scheds')"
    using Cons.prems by (cases scheds; cases scheds') simp_all
  obtain convs tr' where w: "run_window base chunk (next_sched scheds) = (convs, tr')"
    by (cases "run_window base chunk (next_sched scheds)")
  obtain convs2 tr2' where w2: "run_window base chunk (next_sched scheds') = (convs2, tr2')"
    by (cases "run_window base chunk (next_sched scheds')")
  from same_callbacks_window [OF n, of base chunk base] w w2 have c: "convs2 = convs" by simp
  show ?case
  proof (cases "promise_all (map promise convs)")
    case Pending
    with w w2 c show ?thesis by simp
  next
    case (Rejected e)
    with w w2 c show ?thesis by simp
  next
    case (Fulfilled vs)
    from Cons.IH [OF t, of "base + length chunk" "rs @ vs" "tr @ tr'" "tr2 @ tr2'"]
    show ?thesis using w w2 c Fulfilled by simp
  qed
qed


lemma window_of_index:
  fixes k w j n :: nat
  assumes "0 < k" and "w * k \<le> j" and "j < w * k + n" and "n \<le> k"
  shows "(j div k) * k = w * k"
proof -
  have e: "k * w = w * k" by (rule mult.commute)
  have "k * w \<le> j" unfolding e by (rule assms(2))
  moreover have "j < k * Suc w" unfolding mult_Suc_right e using assms(3,4) by linarith
  ultimately have "j div k = w" by (rule div_nat_eqI)
  then show ?thesis by simp
qed

lemma process_chunks_barrier:
  "0 < k \<Longrightarrow>
   \<exists>ext. snd (process_chunks (chunks_of k fs) scheds (w * k) rs tr) = tr @ ext
     \<and> (\<forall>S. {..<w * k} \<subseteq> S \<longrightarrow> barrier (\<lambda>j. (j div k) * k) S ext)"
proof (induction k fs arbitrary: w scheds rs tr rule: chunks_of.induct)
  case (1 k fs)
  note k = \<open>0 < k\<close>
  let ?start = "\<lambda>j. (j div k) * k"
  show ?case
  proof (cases "fs = []")
    case True
    then show ?thesis by simp
  next
    case False
    let ?chunk = "take k fs"
    let ?n = "length ?chunk"
    have n: "?n \<le> k" by simp
    have ch: "chunks_of k fs = ?chunk # chunks_of k (drop k fs)"
      using k False by (rule chunks_of_step)
    obtain convs tr' where win: "run_window (w * k) ?chunk (next_sched scheds) = (convs, tr')"
      by (cases "run_window (w * k) ?chunk (next_sched scheds)")
    from run_window_snd [of "w * k" ?chunk "next_sched scheds"] win
    obtain body where body: "tr' = map Started [w * k..<w * k + ?n] @ body"
      "list_all quiet body"
      "\<forall>i < ?n. promise (convs ! i) \<noteq> Pending \<longrightarrow> Settled (w * k + i) \<in> set body"
      by auto
    have own: "\<And>S. {..<w * k} \<subseteq> S \<Longrightarrow> barrier ?start S tr'"
    proof -
      fix S :: "nat set" assume S: "{..<w * k} \<subseteq> S"
      have "\<forall>j \<in> set [w * k..<w * k + ?n]. {..<?start j} \<subseteq> S"
      proof
        fix j assume "j \<in> set [w * k..<w * k + ?n]"
        then have "w * k \<le> j" "j < w * k + ?n" by simp_all
        from window_of_index [OF k this n] have "?start j = w * k" .
        with S show "{..<?start j} \<subseteq> S" by (simp only:)
      qed
      then have "barrier ?start S (map Started [w * k..<w * k + ?n])"
        by (rule barrier_started)
      moreover have "barrier ?start (S \<union> settled_in (map Started [w * k..<w * k + ?n])) body"
        using body(2) by (rule barrier_quiet)
      ultimately show "barrier ?start S tr'"
        unfolding body(1) by (simp add: barrier_append)
    qed
    show ?thesis
    proof (cases "promise_all (map promise convs)")
      case Pending
      with ch win own show ?thesis by simp
    next
      case (Rejected e)
      with ch win own show ?thesis by simp
    next
      case (Fulfilled vs)
      then have all: "map promise convs = map Fulfilled vs"
        by (simp only: promise_all_Fulfilled)
      have lenc: "length convs = ?n"
        using run_window_length [of "w * k" ?chunk "next_sched scheds"] win by simp
      have settled: "\<forall>i < ?n. Settled (w * k + i) \<in> set tr'"
      proof (intro allI impI)
        fix i assume i: "i < ?n"
        with all lenc have "map promise convs ! i = Fulfilled (vs ! i)"
          by (metis length_map nth_map)
        with i lenc have "promise (convs ! i) \<noteq> Pending" by simp
        with body(3) i show "Settled (w * k + i) \<in> set tr'"
          unfolding body(1) by simp
      qed
      show ?thesis
      proof (cases "k \<le> length fs")
        case False
        then have "chunks_of k (drop k fs) = []" by simp
        with ch win Fulfilled own show ?thesis by simp
      next
        case True
        then have nk: "?n = k" by simp
        have base: "w * k + ?n = Suc w * k" using nk by simp
        from "1.IH" [OF _ k, where w = "Suc w" and scheds = "tl scheds" and rs = "rs @ vs"
            and tr = "tr @ tr'"] k False
        obtain ext where ext:
          "snd (process_chunks (chunks_of k (drop k fs)) (tl scheds) (Suc w * k) (rs @ vs)
              (tr @ tr')) = (tr @ tr') @ ext"
          "\<forall>S. {..<Suc w * k} \<subseteq> S \<longrightarrow> barrier ?start S ext"
          by auto
        have 1: "snd (process_chunks (chunks_of k fs) scheds (w * k) rs tr) = tr @ (tr' @ ext)"
          using ch win Fulfilled ext(1) base by (simp add: add.commute)
        have 2: "\<forall>S. {..<w * k} \<subseteq> S \<longrightarrow> barrier ?start S (tr' @ ext)"
        proof (intro allI impI)
          fix S :: "nat set" assume S: "{..<w * k} \<subseteq> S"
          have "{..<Suc w * k} \<subseteq> S \<union> settled_in tr'"
          proof
            fix i assume "i \<in> {..<Suc w * k}"
            then have i: "i < w * k + k" by simp
            show "i \<in> S \<union> settled_in tr'"
            proof (cases "i < w * k")
              case True
              with S show ?thesis by auto
            next
              case False
              then have "i - w * k < ?n" "w * k + (i - w * k) = i" using i nk by simp_all
              with settled have "Settled i \<in> set tr'" by metis
              then show ?thesis by (simp add: settled_in_def)
            qed
          qed
          with ext(2) have "barrier ?start (S \<union> settled_in tr') ext" by blast
          with own [OF S] show "barrier ?start S (tr' @ ext)" by (simp add: barrier_append)
        qed
        from 1 2 show ?thesis by blast
      qed
    qed
  qed
qed

lemma window_values:
  assumes "promise_all (map promise (fst (run_window base chunk sched))) = Fulfilled vs"
  shows "length vs = length chunk"
    and "\<forall>i < length chunk.
           promise (convertToFLAC (chunk ! i) (events_of i sched)) = Fulfilled (vs ! i)"
proof -
  let ?ps = "map (\<lambda>i. promise (convertToFLAC (chunk ! i) (events_of i sched))) [0..<length chunk]"
  from assms have eq: "?ps = map Fulfilled vs"
    by (simp add: promise_all_Fulfilled run_window_fst comp_def)
  then show len: "length vs = length chunk"
    by (metis length_map length_upt minus_nat.diff_0)
  show "\<forall>i < length chunk.
      promise (convertToFLAC (chunk ! i) (events_of i sched)) = Fulfilled (vs ! i)"
  proof (intro allI impI)
    fix i assume i: "i < length chunk"
    with eq len have "?ps ! i = Fulfilled (vs ! i)" by simp
    with i show "promise (convertToFLAC (chunk ! i) (events_of i sched)) = Fulfilled (vs ! i)"
      by simp
  qed
qed

text \<open>
  The entry at position \<open>j\<close> of a fulfilled result is the value of the conversion of the
  file at position \<open>j\<close>: of the task at position \<open>j mod k\<close> of window \<open>j div k\<close>, under the
  callbacks that the schedule of that window gives to it.
\<close>

lemma process_chunks_values:
  "0 < k \<Longrightarrow> fst (process_chunks (chunks_of k fs) scheds base rs tr) = Fulfilled out \<Longrightarrow>
   \<exists>new. out = rs @ new \<and> length new = length fs
     \<and> (\<forall>j < length fs.
          promise (convertToFLAC (fs ! j)
            (events_of (j mod k) (next_sched (drop (j div k) scheds)))) = Fulfilled (new ! j))"
proof (induction k fs arbitrary: scheds base rs tr out rule: chunks_of.induct)
  case (1 k fs)
  note k = \<open>0 < k\<close>
  show ?case
  proof (cases "fs = []")
    case True
    with "1.prems" show ?thesis by simp
  next
    case False
    let ?chunk = "take k fs"
    let ?n = "length ?chunk"
    have ch: "chunks_of k fs = ?chunk # chunks_of k (drop k fs)"
      using k False by (rule chunks_of_step)
    obtain convs tr' where win: "run_window base ?chunk (next_sched scheds) = (convs, tr')"
      by (cases "run_window base ?chunk (next_sched scheds)")
    show ?thesis
    proof (cases "promise_all (map promise convs)")
      case Pending
      with "1.prems"(2) ch win show ?thesis by simp
    next
      case (Rejected e)
      with "1.prems"(2) ch win show ?thesis by simp
    next
      case (Fulfilled vs)
      with win have pa: "promise_all (map promise (fst (run_window base ?chunk (next_sched scheds))))
          = Fulfilled vs" by simp
      have lvs: "length vs = ?n" using pa by (rule window_values(1))
      have vals: "\<forall>i < ?n. promise (convertToFLAC (?chunk ! i) (events_of i (next_sched scheds)))
          = Fulfilled (vs ! i)"
        using pa by (rule window_values(2))
      from "1.prems"(2) ch win Fulfilled
      have rest: "fst (process_chunks (chunks_of k (drop k fs)) (tl scheds) (base + ?n)
          (rs @ vs) (tr @ tr')) = Fulfilled out" by simp
      from "1.IH" [OF _ k rest] k False
      obtain later where later: "out = (rs @ vs) @ later" "length later = length (drop k fs)"
        "\<forall>j < length (drop k fs).
           promise (convertToFLAC (drop k fs ! j)
             (events_of (j mod k) (next_sched (drop (j div k) (tl scheds)))))
           = Fulfilled (later ! j)"
        by auto
      have 1: "out = rs @ (vs @ later)" using later(1) by simp
      have 2: "length (vs @ later) = length fs" using lvs later(2) by simp
      have 3: "\<forall>j < length fs.
          promise (convertToFLAC (fs ! j)
            (events_of (j mod k) (next_sched (drop (j div k) scheds))))
          = Fulfilled ((vs @ later) ! j)"
      proof (intro allI impI)
        fix j assume j: "j < length fs"
        show "promise (convertToFLAC (fs ! j)
            (events_of (j mod k) (next_sched (drop (j div k) scheds))))
          = Fulfilled ((vs @ later) ! j)"
        proof (cases "j < k")
          case True
          with j have jn: "j < ?n" by simp
          with vals have "promise (convertToFLAC (?chunk ! j) (events_of j (next_sched scheds)))
              = Fulfilled (vs ! j)" by blast
          moreover have "?chunk ! j = fs ! j" using True by simp
          moreover have "j mod k = j" "j div k = 0" using True by simp_all
          moreover have "(vs @ later) ! j = vs ! j" using jn lvs by (simp add: nth_append)
          ultimately show ?thesis by simp
        next
          case False
          then have kj: "k \<le> j" by simp
          with j have kl: "k \<le> length fs" by simp
          then have nk: "?n = k" by simp
          from kj j have j': "j - k < length (drop k fs)" by simp
          with later(3) have "promise (convertToFLAC (drop k fs ! (j - k))
              (events_of ((j - k) mod k) (next_sched (drop ((j - k) div k) (tl scheds)))))
              = Fulfilled (later ! (j - k))" by blast
          moreover have "drop k fs ! (j - k) = fs ! j" using kj kl by simp
          moreover have "(j - k) mod k = j mod k" using kj by (simp add: le_mod_geq)
          moreover have "j div k = Suc ((j - k) div k)" using k kj by (simp add: le_div_geq)
          then have "drop (j div k) scheds = drop ((j - k) div k) (tl scheds)"
            by (simp add: drop_Suc)
          moreover have "(vs @ later) ! j = later ! (j - k)"
            using kj lvs nk by (simp add: nth_append)
          ultimately show ?thesis by simp
        qed
      qed
      from 1 2 3 show ?thesis by blast
    qed
  qed
qed

text \<open>When every conversion is fulfilled, every task is started and settles.\<close>

lemma process_chunks_trace:
  assumes "all_fulfil chunks scheds"
  shows "\<forall>j. base \<le> j \<and> j < base + length (concat chunks) \<longrightarrow>
           Started j \<in> set (snd (process_chunks chunks scheds base rs tr))
         \<and> Settled j \<in> set (snd (process_chunks chunks scheds base rs tr))"
  using assms
proof (induction chunks arbitrary: scheds base rs tr)
  case Nil
  show ?case by auto
next
  case (Cons chunk chunks)
  obtain convs tr' where w: "run_window base chunk (next_sched scheds) = (convs, tr')"
    by (cases "run_window base chunk (next_sched scheds)")
  from Cons.prems have "window_fulfils chunk (next_sched scheds)" by simp
  from window_fulfils_all [OF this, of base] w
  obtain vs where vs: "promise_all (map promise convs) = Fulfilled vs" by auto
  then have all: "map promise convs = map Fulfilled vs"
    by (simp only: promise_all_Fulfilled)
  have lenc: "length convs = length chunk"
    using run_window_length [of base chunk "next_sched scheds"] w by simp
  from run_window_snd [of base chunk "next_sched scheds"] w
  obtain body where body: "tr' = map Started [base..<base + length chunk] @ body"
    "\<forall>i < length chunk. promise (convs ! i) \<noteq> Pending \<longrightarrow> Settled (base + i) \<in> set body"
    by auto
  let ?rest = "process_chunks chunks (tl scheds) (base + length chunk) (rs @ vs) (tr @ tr')"
  have run: "process_chunks (chunk # chunks) scheds base rs tr = ?rest"
    using w vs by simp
  from process_chunks_quiet [of chunks "tl scheds" "base + length chunk" "rs @ vs" "tr @ tr'"]
  obtain ext where ext: "snd ?rest = (tr @ tr') @ ext" by blast
  from Cons.prems have "all_fulfil chunks (tl scheds)" by simp
  from Cons.IH [OF this, of "base + length chunk" "rs @ vs" "tr @ tr'"]
  have IH: "\<forall>j. base + length chunk \<le> j \<and> j < base + length chunk + length (concat chunks) \<longrightarrow>
      Started j \<in> set (snd ?rest) \<and> Settled j \<in> set (snd ?rest)" .
  show ?case
  proof (intro allI impI)
    fix j assume j: "base \<le> j \<and> j < base + length (concat (chunk # chunks))"
    show "Started j \<in> set (snd (process_chunks (chunk # chunks) scheds base rs tr))
        \<and> Settled j \<in> set (snd (process_chunks (chunk # chunks) scheds base rs tr))"
    proof (cases "j < base + length chunk")
      case True
      with j have "Started j \<in> set tr'" unfolding body(1) by simp
      moreover have "Settled j \<in> set tr'"
      proof -
        from True j have i: "j - base < length chunk" "base + (j - base) = j" by simp_all
        with all lenc have "map promise convs ! (j - base) = Fulfilled (vs ! (j - base))"
          by (metis length_map nth_map)
        with i lenc have "promise (convs ! (j - base)) \<noteq> Pending" by simp
        with body(2) i show ?thesis unfolding body(1) by auto
      qed
      ultimately show ?thesis unfolding run ext by simp
    next
      case False
      with j have "base + length chunk \<le> j \<and> j < base + length chunk + length (concat chunks)"
        by simp
      with IH show ?thesis unfolding run by blast
    qed
  qed
qed

lemma chunk_loop_windows:
  assumes k: "0 < k" and len: "length files < 2 ^ 32"
  shows "chunk_loop files k 0 [] = Inr (chunks_of (nat k) files)"
proof -
  have "length (chunks_of (nat k) files) \<le> length files"
    using k by (intro length_chunks_of_le) simp
  also have "length files \<le> max_array_length"
    using len by (simp add: max_array_length_def)
  finally have "length ([] :: audio_file list list)
      + length (chunks_of (nat k) (drop (nat 0) files)) \<le> max_array_length"
    by simp
  with chunk_loop_pos [OF k, of 0 "[]" files] show ?thesis by simp
qed

lemma batchConvert_pos:
  "0 < k \<Longrightarrow> length files < 2 ^ 32 \<Longrightarrow>
   batchConvert files k scheds = process_chunks (chunks_of (nat k) files) scheds 0 [] []"
  by (simp add: batchConvert_def chunk_loop_windows)


lemma earlier_window:
  fixes i j k :: nat
  assumes "0 < k" and "i div k < j div k"
  shows "i < (j div k) * k"
proof -
  have "i < k + (i div k) * k" using assms(1) by (rule dividend_less_div_times)
  also have "\<dots> = Suc (i div k) * k" by simp
  also have "\<dots> \<le> (j div k) * k"
    using assms(2) by (intro mult_le_mono1) simp
  finally show ?thesis .
qed

lemma batchConvert_empty: "batchConvert [] k scheds = (Fulfilled [], [])"
  by (simp add: batchConvert_def chunk_loop.simps)

lemma batchConvert_nonpos:
  "k \<le> 0 \<Longrightarrow> files \<noteq> [] \<Longrightarrow>
   batchConvert files k scheds = (Rejected (RangeError ''Invalid array length''), [])"
  by (simp add: batchConvert_def chunk_loop_nonpos)

lemma batchConvert_result:
  assumes "0 < k" and "length files < 2 ^ 32"
    and "batchConvert files k scheds = (Fulfilled out, tr)"
  shows "list_all2 descriptor_of files out"
proof -
  from assms have "fst (process_chunks (chunks_of (nat k) files) scheds 0 [] []) = Fulfilled out"
    by (simp add: batchConvert_pos)
  from process_chunks_result [OF this]
  have "list_all2 descriptor_of (concat (chunks_of (nat k) files)) out" by simp
  with assms(1) show ?thesis by (simp add: concat_chunks_of)
qed

lemma batchConvert_barrier:
  assumes k: "0 < k" and len: "length files < 2 ^ 32"
    and run: "batchConvert files k scheds = (p, pre @ Started j # post)"
    and i: "i div nat k < j div nat k"
  shows "Settled i \<in> set pre"
proof -
  have nk: "0 < nat k" using k by simp
  from run k len have tr: "snd (process_chunks (chunks_of (nat k) files) scheds 0 [] [])
      = pre @ Started j # post"
    by (simp add: batchConvert_pos)
  from process_chunks_barrier [OF nk, of files scheds 0 "[]" "[]"] tr
  have "barrier (\<lambda>j. (j div nat k) * nat k) {} (pre @ Started j # post)"
    by auto
  from barrier_split [OF this] have "{..<(j div nat k) * nat k} \<subseteq> settled_in pre" by simp
  moreover have "i < (j div nat k) * nat k" using nk i by (rule earlier_window)
  ultimately show ?thesis by (auto simp: settled_in_def)
qed


subsection \<open>Runs of \<open>batchConvert\<close> on two and three files\<close>

definition file_a :: audio_file where
  "file_a = \<lparr>file_name = ''a.wav'', file_size = 10, file_type = ''audio/wav''\<rparr>"

definition file_b :: audio_file where
  "file_b = \<lparr>file_name = ''b.mp3'', file_size = 20, file_type = ''audio/mpeg''\<rparr>"

definition file_c :: audio_file where
  "file_c = \<lparr>file_name = ''c.ogg'', file_size = 30, file_type = ''audio/ogg''\<rparr>"

text \<open>Six more ticks, at later times.\<close>

definition late_ticks :: "timer_event list" where
  "late_ticks = [Tick (14 / 15) ''t7'', Tick (14 / 15) ''t8'', Tick (14 / 15) ''t9'',
     Tick (14 / 15) ''t10'', Tick (14 / 15) ''t11'', Tick (14 / 15) ''t12'']"

text \<open>
  Two schedules of a window of two tasks, with the same callbacks for each task. Under the
  first the second task finishes first: all its six ticks run before the ticks of the first
  task. Under the second the ticks of the first task run first.
\<close>

definition second_first_schedule :: schedule where
  "second_first_schedule = map (Pair 1) six_ticks @ map (Pair 0) late_ticks"

definition first_first_schedule :: schedule where
  "first_first_schedule = map (Pair 0) late_ticks @ map (Pair 1) six_ticks"

text \<open>A schedule under which the only task of a window is fulfilled at the sixth tick.\<close>

definition solo_schedule :: schedule where
  "solo_schedule = map (Pair 0) six_ticks"

text \<open>A schedule under which the only task of a window is rejected: one tick, then the
  timeout with a draw below 0.001.\<close>

definition failing_schedule :: schedule where
  "failing_schedule = [(0, Tick 0 ''t1''), (0, Timeout 0)]"


lemma run_solo:
  "run_window base [f] solo_schedule =
     ([\<lparr>progress = 100, intervalActive = False, timeoutArmed = True,
        promise = Fulfilled (convertedFile f ''t6''), reported = [19, 38, 57, 76, 95]\<rparr>],
      [Started base, Progress base 19, Progress base 38, Progress base 57, Progress base 76,
       Progress base 95, Settled base])"
  by (simp add: run_window_def solo_schedule_def six_ticks_def window_step_def
      start_conversion_def resolve_def Let_def)

lemma run_failing:
  "run_window base [f] failing_schedule =
     ([\<lparr>progress = 5, intervalActive = False, timeoutArmed = False,
        promise = Rejected (Error ''Conversion failed: Simulated error''), reported = [5]\<rparr>],
      [Started base, Progress base 5, Settled base])"
  by (simp add: run_window_def failing_schedule_def window_step_def
      start_conversion_def reject_def Let_def)

lemma chunks_of_two: "chunks_of (Suc 0) [x, y] = [[x], [y]]"
  by (simp add: chunks_of.simps)



lemma late_ticks_run:
  "convertToFLAC f late_ticks =
     \<lparr>progress = 100, intervalActive = False, timeoutArmed = True,
      promise = Fulfilled (convertedFile f ''t12''), reported = [19, 38, 57, 76, 95]\<rparr>"
  by (simp add: late_ticks_def convertToFLAC_def start_conversion_def resolve_def Let_def)

lemma run_second_first:
  "run_window base [f, g] second_first_schedule =
     ([\<lparr>progress = 100, intervalActive = False, timeoutArmed = True,
        promise = Fulfilled (convertedFile f ''t12''), reported = [19, 38, 57, 76, 95]\<rparr>,
       \<lparr>progress = 100, intervalActive = False, timeoutArmed = True,
        promise = Fulfilled (convertedFile g ''t6''), reported = [19, 38, 57, 76, 95]\<rparr>],
      [Started base, Started (Suc base),
       Progress (Suc base) 19, Progress (Suc base) 38, Progress (Suc base) 57,
       Progress (Suc base) 76, Progress (Suc base) 95, Settled (Suc base),
       Progress base 19, Progress base 38, Progress base 57, Progress base 76,
       Progress base 95, Settled base])"
  by (simp add: run_window_def second_first_schedule_def six_ticks_def late_ticks_def
      window_step_def start_conversion_def resolve_def Let_def)

lemma chunks_of_three: "chunks_of 2 [x, y, z] = [[x, y], [z]]"
  by (simp add: chunks_of.simps)

lemma batchConvert_three:
  "batchConvert [file_a, file_b, file_c] 2 [second_first_schedule, solo_schedule] =
     (Fulfilled [convertedFile file_a ''t12'', convertedFile file_b ''t6'',
                 convertedFile file_c ''t6''],
      [Started 0, Started 1,
       Progress 1 19, Progress 1 38, Progress 1 57, Progress 1 76, Progress 1 95, Settled 1,
       Progress 0 19, Progress 0 38, Progress 0 57, Progress 0 76, Progress 0 95, Settled 0,
       Started 2,
       Progress 2 19, Progress 2 38, Progress 2 57, Progress 2 76, Progress 2 95, Settled 2])"
  by (simp add: batchConvert_pos chunks_of_three next_sched_def run_second_first run_solo
      promise_all_def)

lemma events_of_second_first:
  "events_of 0 second_first_schedule = late_ticks"
  "events_of (Suc 0) second_first_schedule = six_ticks"
  by (simp_all add: events_of_def second_first_schedule_def six_ticks_def late_ticks_def)

lemma second_first_fulfils: "window_fulfils [f, g] second_first_schedule"
  by (simp add: window_fulfils_def events_of_second_first six_ticks_run late_ticks_run)

lemma events_of_append: "events_of i (s @ t) = events_of i s @ events_of i t"
  by (simp add: events_of_def)

lemma events_of_map_Pair: "events_of i (map (Pair j) evs) = (if j = i then evs else [])"
  by (cases "j = i") (simp_all add: events_of_def filter_map comp_def)

lemma same_callbacks_first_second: "same_callbacks second_first_schedule first_first_schedule"
  by (simp add: same_callbacks_def second_first_schedule_def first_first_schedule_def
      events_of_append events_of_map_Pair)

lemma events_of_solo: "events_of 0 solo_schedule = six_ticks"
  by (simp add: events_of_def solo_schedule_def six_ticks_def)

lemma solo_fulfils: "window_fulfils [f] solo_schedule"
  by (simp add: window_fulfils_def events_of_solo six_ticks_run)


subsection \<open>Claim C4\<close>

text \<open>
  C4: for every batch run with a positive limit: when every conversion is fulfilled, the run
  returns a result, and every task is started and settles; the entries of a result stand in
  the order of the submitted files, the entry at position \<open>j\<close> being the value of the
  conversion of the file at position \<open>j\<close>, the output descriptor of that file; the result
  does not depend on how the callbacks of the tasks of a window interleave (on which task
  finishes first); and whenever a task is started, every task of every earlier window has
  settled before. The list of files is an array, of fewer than \<open>2^32\<close> elements.
\<close>

theorem batchConvert_order_and_barrier:
  assumes "0 < k" and "length files < 2 ^ 32"
  shows "(all_fulfil (chunks_of (nat k) files) scheds \<longrightarrow>
            (\<exists>out tr. batchConvert files k scheds = (Fulfilled out, tr)
               \<and> (\<forall>j < length files. Started j \<in> set tr \<and> Settled j \<in> set tr)))
    \<and> (\<forall>out tr. batchConvert files k scheds = (Fulfilled out, tr) \<longrightarrow>
            length out = length files
          \<and> (\<forall>j < length files.
                promise (convertToFLAC (files ! j)
                  (events_of (j mod nat k) (next_sched (drop (j div nat k) scheds))))
                = Fulfilled (out ! j))
          \<and> list_all2 descriptor_of files out)
    \<and> (\<forall>scheds'. list_all2 same_callbacks scheds scheds'
            \<longrightarrow> fst (batchConvert files k scheds') = fst (batchConvert files k scheds))
    \<and> (\<forall>p pre j post i. batchConvert files k scheds = (p, pre @ Started j # post)
            \<and> i div nat k < j div nat k \<longrightarrow> Settled i \<in> set pre)"
proof (intro conjI)
  let ?run = "process_chunks (chunks_of (nat k) files) scheds 0 [] []"
  have run: "batchConvert files k scheds = ?run"
    using assms by (rule batchConvert_pos)
  have nk: "0 < nat k" using assms(1) by simp
  show "all_fulfil (chunks_of (nat k) files) scheds \<longrightarrow>
      (\<exists>out tr. batchConvert files k scheds = (Fulfilled out, tr)
         \<and> (\<forall>j < length files. Started j \<in> set tr \<and> Settled j \<in> set tr))"
  proof
    assume all: "all_fulfil (chunks_of (nat k) files) scheds"
    from process_chunks_all_fulfil [OF all, of 0 "[]" "[]"]
    obtain out where out: "fst ?run = Fulfilled out" by blast
    from process_chunks_trace [OF all, of 0 "[]" "[]"]
    have "\<forall>j < length files. Started j \<in> set (snd ?run) \<and> Settled j \<in> set (snd ?run)"
      using nk by (simp add: concat_chunks_of)
    moreover have "batchConvert files k scheds = (Fulfilled out, snd ?run)"
      unfolding run using out by (cases ?run) simp
    ultimately show "\<exists>out tr. batchConvert files k scheds = (Fulfilled out, tr)
        \<and> (\<forall>j < length files. Started j \<in> set tr \<and> Settled j \<in> set tr)"
      by blast
  qed
  show "\<forall>out tr. batchConvert files k scheds = (Fulfilled out, tr) \<longrightarrow>
      length out = length files
      \<and> (\<forall>j < length files.
            promise (convertToFLAC (files ! j)
              (events_of (j mod nat k) (next_sched (drop (j div nat k) scheds))))
            = Fulfilled (out ! j))
      \<and> list_all2 descriptor_of files out"
  proof (intro allI impI)
    fix out tr assume res: "batchConvert files k scheds = (Fulfilled out, tr)"
    then have "fst ?run = Fulfilled out" unfolding run by simp
    with nk have "\<exists>new. out = [] @ new \<and> length new = length files
       \<and> (\<forall>j < length files.
            promise (convertToFLAC (files ! j)
              (events_of (j mod nat k) (next_sched (drop (j div nat k) scheds))))
            = Fulfilled (new ! j))"
      by (rule process_chunks_values)
    then have "length out = length files
       \<and> (\<forall>j < length files.
            promise (convertToFLAC (files ! j)
              (events_of (j mod nat k) (next_sched (drop (j div nat k) scheds))))
            = Fulfilled (out ! j))"
      by simp
    moreover from assms res have "list_all2 descriptor_of files out"
      by (rule batchConvert_result)
    ultimately show "length out = length files
      \<and> (\<forall>j < length files.
            promise (convertToFLAC (files ! j)
              (events_of (j mod nat k) (next_sched (drop (j div nat k) scheds))))
            = Fulfilled (out ! j))
      \<and> list_all2 descriptor_of files out"
      by blast
  qed
  show "\<forall>scheds'. list_all2 same_callbacks scheds scheds'
      \<longrightarrow> fst (batchConvert files k scheds') = fst (batchConvert files k scheds)"
  proof (intro allI impI)
    fix scheds' assume "list_all2 same_callbacks scheds scheds'"
    from process_chunks_interleaving [OF this, of "chunks_of (nat k) files" 0 "[]" "[]" "[]"]
    show "fst (batchConvert files k scheds') = fst (batchConvert files k scheds)"
      using assms by (simp add: batchConvert_pos)
  qed
  show "\<forall>p pre j post i. batchConvert files k scheds = (p, pre @ Started j # post)
      \<and> i div nat k < j div nat k \<longrightarrow> Settled i \<in> set pre"
  proof (intro allI impI)
    fix p pre j post i
    assume "batchConvert files k scheds = (p, pre @ Started j # post)
        \<and> i div nat k < j div nat k"
    with assms show "Settled i \<in> set pre" by (blast intro: batchConvert_barrier)
  qed
qed

text \<open>
  Three files with limit 2. In the first window the second task finishes before the first
  (\<open>t6\<close> against \<open>t12\<close>); the result still lists the first file first, the same result comes
  out when the first task finishes first, and the third file is started only after both
  tasks of the first window have settled.
\<close>

theorem batchConvert_order_and_barrier_witness:
  "batchConvert [file_a, file_b, file_c] 2 [second_first_schedule, solo_schedule] =
     (Fulfilled [convertedFile file_a ''t12'', convertedFile file_b ''t6'',
                 convertedFile file_c ''t6''],
      [Started 0, Started 1,
       Progress 1 19, Progress 1 38, Progress 1 57, Progress 1 76, Progress 1 95, Settled 1,
       Progress 0 19, Progress 0 38, Progress 0 57, Progress 0 76, Progress 0 95, Settled 0]
      @ Started 2 #
      [Progress 2 19, Progress 2 38, Progress 2 57, Progress 2 76, Progress 2 95, Settled 2])
   \<and> (\<exists>out tr. batchConvert [file_a, file_b, file_c] 2 [second_first_schedule, solo_schedule]
          = (Fulfilled out, tr)
        \<and> (\<forall>j < length [file_a, file_b, file_c]. Started j \<in> set tr \<and> Settled j \<in> set tr))
   \<and> list_all2 descriptor_of [file_a, file_b, file_c]
        [convertedFile file_a ''t12'', convertedFile file_b ''t6'', convertedFile file_c ''t6'']
   \<and> promise (convertToFLAC file_b (events_of 1 second_first_schedule))
        = Fulfilled (convertedFile file_b ''t6'')
   \<and> fst (batchConvert [file_a, file_b, file_c] 2 [first_first_schedule, solo_schedule])
        = fst (batchConvert [file_a, file_b, file_c] 2 [second_first_schedule, solo_schedule])
   \<and> Settled 0 \<in> set [Started 0, Started 1,
       Progress 1 19, Progress 1 38, Progress 1 57, Progress 1 76, Progress 1 95, Settled 1,
       Progress 0 19, Progress 0 38, Progress 0 57, Progress 0 76, Progress 0 95, Settled 0]
   \<and> Settled 1 \<in> set [Started 0, Started 1,
       Progress 1 19, Progress 1 38, Progress 1 57, Progress 1 76, Progress 1 95, Settled 1,
       Progress 0 19, Progress 0 38, Progress 0 57, Progress 0 76, Progress 0 95, Settled 0]"
proof -
  let ?files = "[file_a, file_b, file_c]"
  let ?scheds = "[second_first_schedule, solo_schedule]"
  let ?pre = "[Started 0, Started 1,
       Progress 1 19, Progress 1 38, Progress 1 57, Progress 1 76, Progress 1 95, Settled 1,
       Progress 0 19, Progress 0 38, Progress 0 57, Progress 0 76, Progress 0 95, Settled 0]"
  let ?post = "[Progress 2 19, Progress 2 38, Progress 2 57, Progress 2 76, Progress 2 95,
       Settled 2]"
  let ?out = "[convertedFile file_a ''t12'', convertedFile file_b ''t6'',
       convertedFile file_c ''t6'']"
  have k: "(0::int) < 2" by simp
  have len: "length ?files < 2 ^ 32" by simp
  note inst = batchConvert_order_and_barrier [OF k len, of ?scheds]
  have run: "batchConvert ?files 2 ?scheds = (Fulfilled ?out, ?pre @ Started 2 # ?post)"
    by (simp add: batchConvert_three)
  have all: "all_fulfil (chunks_of (nat 2) ?files) ?scheds"
    by (simp add: chunks_of_three next_sched_def second_first_fulfils solo_fulfils)
  with inst have e: "\<exists>out tr. batchConvert ?files 2 ?scheds = (Fulfilled out, tr)
      \<and> (\<forall>j < length ?files. Started j \<in> set tr \<and> Settled j \<in> set tr)"
    by blast
  from inst run have d: "list_all2 descriptor_of ?files ?out"
    by blast
  from inst run have vals: "\<forall>j < length ?files.
      promise (convertToFLAC (?files ! j)
        (events_of (j mod nat 2) (next_sched (drop (j div nat 2) ?scheds))))
      = Fulfilled (?out ! j)"
    by blast
  from vals [rule_format, of 1]
  have v: "promise (convertToFLAC file_b (events_of 1 second_first_schedule))
      = Fulfilled (convertedFile file_b ''t6'')"
    by (simp add: next_sched_def)
  have "list_all2 same_callbacks ?scheds [first_first_schedule, solo_schedule]"
    by (simp add: same_callbacks_first_second) (simp add: same_callbacks_def)
  with inst have s: "fst (batchConvert ?files 2 [first_first_schedule, solo_schedule])
      = fst (batchConvert ?files 2 ?scheds)"
    by blast
  have "batchConvert ?files 2 ?scheds = (Fulfilled ?out, ?pre @ Started 2 # ?post)
      \<and> (0::nat) div nat 2 < 2 div nat 2"
    using run by simp
  with inst have b0: "Settled 0 \<in> set ?pre" by blast
  have "batchConvert ?files 2 ?scheds = (Fulfilled ?out, ?pre @ Started 2 # ?post)
      \<and> (1::nat) div nat 2 < 2 div nat 2"
    using run by simp
  with inst have b1: "Settled 1 \<in> set ?pre" by blast
  from run e d v s b0 b1 show ?thesis by blast
qed


subsection \<open>Claim C1\<close>

text \<open>
  C1, as stated: the batch run fails if and only if the task list is empty or the limit is
  not positive. \<open>batchConvert\<close> checks neither, and an empty task list does not make it
  fail: it returns an empty result, whatever the limit.
\<close>

theorem batchConvert_empty_counterexample:
  "batchConvert [] 10 [] = (Fulfilled [], [])
   \<and> batchConvert [] 0 [] = (Fulfilled [], [])"
  by (simp add: batchConvert_empty)


text \<open>
  C1, amended: \<open>batchConvert\<close> has no precondition check. On an empty task list it returns
  an empty result for every limit. On a task list that is not empty, with a limit that is
  not positive, the call fails: its chunking loop never advances and pushes chunks until the
  array is full, so the call is rejected with \<open>RangeError: Invalid array length\<close>, no
  conversion having been started. That is the only case in which the chunking fails. With a
  positive limit, when every conversion is fulfilled the call returns one output descriptor
  per task, in order. The list of files is an array, of fewer than \<open>2^32\<close> elements.
\<close>

theorem batchConvert_returns:
  "batchConvert [] k scheds = (Fulfilled [], [])
   \<and> (k \<le> 0 \<and> files \<noteq> [] \<longrightarrow>
        batchConvert files k scheds = (Rejected (RangeError ''Invalid array length''), []))
   \<and> (length files < 2 ^ 32 \<longrightarrow>
        ((\<exists>e. chunk_loop files k 0 [] = Inl e) \<longleftrightarrow> k \<le> 0 \<and> files \<noteq> []))
   \<and> (0 < k \<and> length files < 2 ^ 32 \<and> all_fulfil (chunks_of (nat k) files) scheds \<longrightarrow>
        (\<exists>out tr. batchConvert files k scheds = (Fulfilled out, tr)
           \<and> list_all2 descriptor_of files out))"
proof (intro conjI impI)
  show "batchConvert [] k scheds = (Fulfilled [], [])" by (rule batchConvert_empty)
next
  assume "k \<le> 0 \<and> files \<noteq> []"
  then show "batchConvert files k scheds = (Rejected (RangeError ''Invalid array length''), [])"
    by (simp add: batchConvert_nonpos)
next
  assume len: "length files < 2 ^ 32"
  show "(\<exists>e. chunk_loop files k 0 [] = Inl e) \<longleftrightarrow> k \<le> 0 \<and> files \<noteq> []"
  proof (cases "0 < k")
    case True
    from True len have "chunk_loop files k 0 [] = Inr (chunks_of (nat k) files)"
      by (rule chunk_loop_windows)
    with True show ?thesis by simp
  next
    case False
    show ?thesis
    proof (cases "files = []")
      case True
      then have "chunk_loop files k 0 [] = Inr []" by (simp add: chunk_loop.simps)
      with True show ?thesis by simp
    next
      case ne: False
      from False ne have "chunk_loop files k 0 [] = Inl (RangeError ''Invalid array length'')"
        by (intro chunk_loop_nonpos) simp_all
      with False ne show ?thesis by simp
    qed
  qed
next
  assume a: "0 < k \<and> length files < 2 ^ 32 \<and> all_fulfil (chunks_of (nat k) files) scheds"
  then have k: "0 < k" and len: "length files < 2 ^ 32" by simp_all
  from a process_chunks_all_fulfil [of "chunks_of (nat k) files" scheds 0 "[]" "[]"]
  obtain out where "fst (process_chunks (chunks_of (nat k) files) scheds 0 [] []) = Fulfilled out"
    by blast
  then obtain tr where run: "batchConvert files k scheds = (Fulfilled out, tr)"
    using k len by (cases "process_chunks (chunks_of (nat k) files) scheds 0 [] []")
      (simp add: batchConvert_pos)
  with k len have "list_all2 descriptor_of files out" by (rule batchConvert_result)
  with run show "\<exists>out tr. batchConvert files k scheds = (Fulfilled out, tr)
      \<and> list_all2 descriptor_of files out" by blast
qed

theorem batchConvert_returns_witness:
  "(\<exists>out tr. batchConvert [file_a, file_b] 1 [solo_schedule, solo_schedule]
        = (Fulfilled out, tr) \<and> list_all2 descriptor_of [file_a, file_b] out)
   \<and> batchConvert [file_a] 0 [] = (Rejected (RangeError ''Invalid array length''), [])
   \<and> batchConvert [file_a] (- 1) [] = (Rejected (RangeError ''Invalid array length''), [])
   \<and> (\<exists>e. chunk_loop [file_a] 0 0 [] = Inl e)
   \<and> \<not> (\<exists>e. chunk_loop [file_a, file_b] 1 0 [] = Inl e)"
proof -
  have "all_fulfil (chunks_of (nat 1) [file_a, file_b]) [solo_schedule, solo_schedule]"
    by (simp add: chunks_of_two next_sched_def solo_fulfils)
  then have "(0::int) < 1 \<and> length [file_a, file_b] < 2 ^ 32
      \<and> all_fulfil (chunks_of (nat 1) [file_a, file_b]) [solo_schedule, solo_schedule]"
    by simp
  with batchConvert_returns [of 1 "[solo_schedule, solo_schedule]" "[file_a, file_b]"]
  have a: "\<exists>out tr. batchConvert [file_a, file_b] 1 [solo_schedule, solo_schedule]
        = (Fulfilled out, tr) \<and> list_all2 descriptor_of [file_a, file_b] out"
    by blast
  have "(0 :: int) \<le> 0 \<and> [file_a] \<noteq> []" by simp
  with batchConvert_returns [of 0 "[]" "[file_a]"]
  have b: "batchConvert [file_a] 0 [] = (Rejected (RangeError ''Invalid array length''), [])"
    by blast
  have "(- 1 :: int) \<le> 0 \<and> [file_a] \<noteq> []" by simp
  with batchConvert_returns [of "- 1" "[]" "[file_a]"]
  have c: "batchConvert [file_a] (- 1) [] = (Rejected (RangeError ''Invalid array length''), [])"
    by blast
  have "length [file_a] < 2 ^ 32" by simp
  with batchConvert_returns [of 0 "[]" "[file_a]"]
  have "(\<exists>e. chunk_loop [file_a] 0 0 [] = Inl e) \<longleftrightarrow> (0::int) \<le> 0 \<and> [file_a] \<noteq> []"
    by blast
  then have d: "\<exists>e. chunk_loop [file_a] 0 0 [] = Inl e" by simp
  have "length [file_a, file_b] < 2 ^ 32" by simp
  with batchConvert_returns [of 1 "[]" "[file_a, file_b]"]
  have "(\<exists>e. chunk_loop [file_a, file_b] 1 0 [] = Inl e) \<longleftrightarrow> (1::int) \<le> 0 \<and> [file_a, file_b] \<noteq> []"
    by blast
  then have e: "\<not> (\<exists>e. chunk_loop [file_a, file_b] 1 0 [] = Inl e)" by simp
  from a b c d e show ?thesis by blast
qed


subsection \<open>Claim C2\<close>

text \<open>
  C2 says that one failing conversion keeps no sibling and no later window from its terminal
  state, and that the batch still returns a result covering every task. In \<open>batchConvert\<close>
  a rejected conversion rejects the whole call: with two files and limit 1, the first being
  rejected, the call is rejected with the error of the first and the second file is never
  started.
\<close>

theorem batchConvert_fail_fast:
  "batchConvert [file_a, file_b] 1 [failing_schedule, solo_schedule] =
     (Rejected (Error ''Conversion failed: Simulated error''),
      [Started 0, Progress 0 5, Settled 0])"
  by (simp add: batchConvert_pos chunks_of_two next_sched_def run_failing promise_all_def)


subsection \<open>\<open>startConversion\<close> and \<open>convertSingleFile\<close>\<close>



























subsection \<open>A run of \<open>startConversion\<close> with a failing conversion\<close>






lemma batchConvert_no_batch_progress:
  assumes "batchConvert files k scheds = (p, tr)"
  shows "filter is_BatchProgress tr = []"
proof (cases "chunk_loop files k 0 []")
  case (Inl e)
  with assms show ?thesis by (simp add: batchConvert_def)
next
  case (Inr chunks)
  with assms have "tr = snd (process_chunks chunks scheds 0 [] [])"
    by (simp add: batchConvert_def)
  with process_chunks_quiet [of chunks scheds 0 "[]" "[]"]
  have "list_all (\<lambda>ev. \<not> is_BatchProgress ev) tr" by auto
  then show ?thesis by (simp add: filter_empty_conv list_all_iff)
qed

subsection \<open>Claim C3\<close>






end
